theory Spec2Isabelle
  imports Complex_Main "HOL-Library.Word" "HOL-Library.Log_Nat" "HOL-Library.Multiset"
begin

section \<open>Movie.h: the playback engine of libglvideo\<close>

text \<open>
  The development follows \<^verbatim>\<open>include/Movie.h\<close>. What the header defines inline (the
  \<^verbatim>\<open>Options\<close> class, the default member initialisers of \<^verbatim>\<open>Movie\<close>, the accessors,
  \<^verbatim>\<open>incrementReadFraction\<close> and \<^verbatim>\<open>getReadSample\<close>) is translated from the C++ text.
  The member functions that the header only declares (they are defined in
  \<^verbatim>\<open>Movie.cpp\<close>) and the class \<^verbatim>\<open>concurrent_buffer\<close> of \<^verbatim>\<open>concurrency.h\<close> are modelled
  from the written specification of the player; each such definition says so and names
  the section it follows.

  \<^verbatim>\<open>size_t\<close> is a 64-bit word.
\<close>

type_synonym size_t = "64 word"

subsection \<open>\<^verbatim>\<open>Movie::Options\<close>\<close>

text \<open>
  The three private members of \<^verbatim>\<open>Options\<close>, with the values of their default member
  initialisers; the constructor \<^verbatim>\<open>Options() {}\<close> changes none of them.
\<close>

record Options =
  m_cpuBufferSize :: size_t
  m_gpuBufferSize :: size_t
  m_prebuffer :: bool

definition Options_default :: Options where
  "Options_default = \<lparr> m_cpuBufferSize = 2, m_gpuBufferSize = 2, m_prebuffer = True \<rparr>"

text \<open>The chainable setters and the const getters.\<close>

definition set_prebuffer :: "bool \<Rightarrow> Options \<Rightarrow> Options" where
  "set_prebuffer prebuffer opts = opts\<lparr> m_prebuffer := prebuffer \<rparr>"

definition prebuffer_opt :: "Options \<Rightarrow> bool" where
  "prebuffer_opt opts = m_prebuffer opts"

definition set_cpuBufferSize :: "size_t \<Rightarrow> Options \<Rightarrow> Options" where
  "set_cpuBufferSize frames opts = opts\<lparr> m_cpuBufferSize := frames \<rparr>"

definition cpuBufferSize :: "Options \<Rightarrow> size_t" where
  "cpuBufferSize opts = m_cpuBufferSize opts"

definition set_gpuBufferSize :: "size_t \<Rightarrow> Options \<Rightarrow> Options" where
  "set_gpuBufferSize frames opts = opts\<lparr> m_gpuBufferSize := frames \<rparr>"

definition gpuBufferSize :: "Options \<Rightarrow> size_t" where
  "gpuBufferSize opts = m_gpuBufferSize opts"

subsection \<open>IEEE 754 binary64 arithmetic\<close>

text \<open>
  \<^verbatim>\<open>m_readFraction\<close> is a \<^verbatim>\<open>double\<close>, and \<^verbatim>\<open>getReadSample\<close> and
  \<^verbatim>\<open>incrementReadFraction\<close> multiply and add doubles, so the arithmetic is modelled with
  its rounding. A floating-point value is a rational number, an infinity or a NaN. The two
  signed zeros are one value \<open>Finite 0\<close>, and all NaNs are one value. The arithmetic and
  the comparisons of the header do not tell them apart. \<^verbatim>\<open>compare_exchange_weak\<close> compares
  the stored bits and does: an attempt of the program that fails only because the stored
  zero has the other sign is, in the model, an exchange, and stores the number that the
  program's next attempt stores.
\<close>

datatype ieee = Finite rat | PInf | NInf | NaN

type_synonym double = ieee
type_synonym float32 = ieee

text \<open>
  \<open>ilog2 x\<close> is the binary exponent of a positive rational: the \<open>e\<close> with
  \<open>2 powi e \<le> x < 2 powi (e + 1)\<close>. The difference of the bit lengths of numerator and denominator is
  that exponent or one more.
\<close>

definition ilog2 :: "rat \<Rightarrow> int" where
  "ilog2 x = (let (p, q) = quotient_of x; e = bitlen p - bitlen q
              in if 2 powi e \<le> x then e else e - 1)"

text \<open>Rounding a rational to the nearest integer, a tie going to the even one.\<close>

definition round_half_even :: "rat \<Rightarrow> int" where
  "round_half_even y =
     (let f = \<lfloor>y\<rfloor>; r = y - of_int f
      in if r < 1 / 2 then f else if 1 / 2 < r then f + 1 else if even f then f else f + 1)"

text \<open>
  binary64 has 53 significant bits and a least normal exponent of \<open>-1022\<close>, below which
  the spacing stays that of the subnormal numbers. \<open>quantum x\<close> is the spacing of the
  binary64 numbers in the binade of \<open>x\<close>, for positive \<open>x\<close>.
\<close>

definition exponent :: "rat \<Rightarrow> int" where
  "exponent x = max (ilog2 x) (- 1022)"

definition quantum :: "rat \<Rightarrow> rat" where
  "quantum x = 2 powi (exponent x - 52)"

definition is_int :: "rat \<Rightarrow> bool" where
  "is_int y = (of_int \<lfloor>y\<rfloor> = y)"

text \<open>The rationals that are binary64 numbers.\<close>

definition representable :: "rat \<Rightarrow> bool" where
  "representable r = (r = 0 \<or> (is_int (\<bar>r\<bar> / quantum \<bar>r\<bar>) \<and> \<bar>r\<bar> < 2 powi 1024))"

fun is_double :: "double \<Rightarrow> bool" where
  "is_double (Finite r) = representable r"
| "is_double PInf = True"
| "is_double NInf = True"
| "is_double NaN = True"

text \<open>
  Round to nearest, ties to even (the default rounding mode): of the magnitude first, then
  with the sign, then with overflow to an infinity.
\<close>

definition round_mag :: "rat \<Rightarrow> rat" where
  "round_mag x = (if x = 0 then 0 else of_int (round_half_even (x / quantum x)) * quantum x)"

definition round_nearest :: "rat \<Rightarrow> rat" where
  "round_nearest x = (if x < 0 then - round_mag (- x) else round_mag x)"

definition round_double :: "rat \<Rightarrow> double" where
  "round_double x =
     (let r = round_nearest x
      in if 2 powi 1024 \<le> r then PInf else if r \<le> - (2 powi 1024) then NInf else Finite r)"

text \<open>The comparisons \<^verbatim>\<open><\<close> and \<^verbatim>\<open><=\<close> of C++: every comparison with a NaN is false.\<close>

fun dless :: "double \<Rightarrow> double \<Rightarrow> bool" where
  "dless (Finite a) (Finite b) = (a < b)"
| "dless (Finite a) PInf = True"
| "dless NInf (Finite b) = True"
| "dless NInf PInf = True"
| "dless _ _ = False"

fun dle :: "double \<Rightarrow> double \<Rightarrow> bool" where
  "dle (Finite a) (Finite b) = (a \<le> b)"
| "dle NaN _ = False"
| "dle _ NaN = False"
| "dle NInf _ = True"
| "dle _ PInf = True"
| "dle _ _ = False"

text \<open>Addition and multiplication of doubles: the exact result, rounded.\<close>

fun dadd :: "double \<Rightarrow> double \<Rightarrow> double" where
  "dadd (Finite a) (Finite b) = round_double (a + b)"
| "dadd NaN _ = NaN"
| "dadd _ NaN = NaN"
| "dadd PInf NInf = NaN"
| "dadd NInf PInf = NaN"
| "dadd PInf _ = PInf"
| "dadd _ PInf = PInf"
| "dadd NInf _ = NInf"
| "dadd _ NInf = NInf"

fun dmul :: "double \<Rightarrow> double \<Rightarrow> double" where
  "dmul (Finite a) (Finite b) = round_double (a * b)"
| "dmul NaN _ = NaN"
| "dmul _ NaN = NaN"
| "dmul (Finite a) PInf = (if a = 0 then NaN else if 0 < a then PInf else NInf)"
| "dmul (Finite a) NInf = (if a = 0 then NaN else if 0 < a then NInf else PInf)"
| "dmul PInf (Finite b) = (if b = 0 then NaN else if 0 < b then PInf else NInf)"
| "dmul NInf (Finite b) = (if b = 0 then NaN else if 0 < b then NInf else PInf)"
| "dmul PInf PInf = PInf"
| "dmul PInf NInf = NInf"
| "dmul NInf PInf = NInf"
| "dmul NInf NInf = PInf"

text \<open>
  The conversions of the cast expressions. \<^verbatim>\<open>(double)m_numSamples\<close> rounds the integer to
  the nearest double. \<^verbatim>\<open>(size_t)x\<close> truncates towards zero, and is undefined behaviour
  (\<open>None\<close>) when the truncated value is not a \<^verbatim>\<open>size_t\<close>, or \<open>x\<close> is an infinity or a NaN.
\<close>

definition double_of_size_t :: "size_t \<Rightarrow> double" where
  "double_of_size_t n = round_double (of_int (uint n))"

definition trunc_rat :: "rat \<Rightarrow> int" where
  "trunc_rat r = (if 0 \<le> r then \<lfloor>r\<rfloor> else \<lceil>r\<rceil>)"

fun size_t_of_double :: "double \<Rightarrow> size_t option" where
  "size_t_of_double (Finite r) =
     (let t = trunc_rat r in if 0 \<le> t \<and> t < 2 ^ 64 then Some (word_of_int t) else None)"
| "size_t_of_double _ = None"

subsection \<open>The read fraction: \<^verbatim>\<open>getReadSample\<close> and \<^verbatim>\<open>incrementReadFraction\<close>\<close>

text \<open>
  \<^verbatim>\<open>size_t getReadSample() const { return (size_t)((double)m_readFraction * (double)m_numSamples); }\<close>

  The conversion of the atomic to \<^verbatim>\<open>double\<close> is its one load; the function is given the
  value loaded.
\<close>

definition getReadSample :: "double \<Rightarrow> size_t \<Rightarrow> size_t option" where
  "getReadSample m_readFraction m_numSamples =
     size_t_of_double (dmul m_readFraction (double_of_size_t m_numSamples))"

text \<open>
  \<^verbatim>\<open>void incrementReadFraction(double increment) {
      auto current = m_readFraction.load();
      while (!m_readFraction.compare_exchange_weak(current, current + increment))
          ;
  }\<close>

  The atomic operations of a call are its steps: the load, then one attempt of
  \<^verbatim>\<open>compare_exchange_weak\<close> after the other. A call is before its load, before an
  attempt (holding its local \<^verbatim>\<open>current\<close>), or it has returned; it keeps its argument
  \<^verbatim>\<open>increment\<close> throughout.
\<close>

datatype call = AtLoad double | AtCas double double | Returned double

fun increment_of :: "call \<Rightarrow> double" where
  "increment_of (AtLoad increment) = increment"
| "increment_of (AtCas current increment) = increment"
| "increment_of (Returned increment) = increment"

fun returned :: "call \<Rightarrow> bool" where
  "returned (Returned increment) = True"
| "returned _ = False"

text \<open>
  One step of a call, given the value of \<^verbatim>\<open>m_readFraction\<close>; it returns the new value of
  the atomic with the call's next point. An attempt compares the atomic with \<^verbatim>\<open>current\<close>;
  when they are equal it stores \<^verbatim>\<open>current + increment\<close> and the loop ends, otherwise it
  writes the value of the atomic to \<^verbatim>\<open>current\<close> and the loop goes on. The weak form may
  also fail when they are equal: that is the flag \<open>spurious\<close>, which the schedule sets.
\<close>

fun call_step :: "bool \<Rightarrow> double \<Rightarrow> call \<Rightarrow> double \<times> call" where
  "call_step spurious cell (AtLoad increment) = (cell, AtCas cell increment)"
| "call_step spurious cell (AtCas current increment) =
     (if cell = current \<and> \<not> spurious then (dadd current increment, Returned increment)
      else (cell, AtCas cell increment))"
| "call_step spurious cell (Returned increment) = (cell, Returned increment)"

text \<open>
  The progress tracker with the calls in flight, one per entry: threads may run any number
  of calls at once. A schedule is the order in which the calls take their steps; its entry
  \<open>(i, spurious)\<close> lets call \<open>i\<close> take one step.
\<close>

type_synonym tracker = "double \<times> call list"

fun step :: "nat \<times> bool \<Rightarrow> tracker \<Rightarrow> tracker" where
  "step (i, spurious) (cell, calls) =
     (if i < length calls
      then (case call_step spurious cell (calls ! i) of (cell', c') \<Rightarrow> (cell', calls[i := c']))
      else (cell, calls))"

fun run :: "(nat \<times> bool) list \<Rightarrow> tracker \<Rightarrow> tracker" where
  "run [] s = s"
| "run (e # sch) s = run sch (step e s)"

text \<open>The step is a successful exchange: an attempt that finds the atomic equal to \<^verbatim>\<open>current\<close>.\<close>

fun succeeds :: "nat \<times> bool \<Rightarrow> tracker \<Rightarrow> bool" where
  "succeeds (i, spurious) (cell, calls) =
     (i < length calls \<and>
      (case calls ! i of AtCas current increment \<Rightarrow> cell = current \<and> \<not> spurious | _ \<Rightarrow> False))"

text \<open>
  The successful exchanges of a run, in order: the call, the value of the atomic at the
  exchange, and the increment added to it.
\<close>

fun exchanges :: "(nat \<times> bool) list \<Rightarrow> tracker \<Rightarrow> (nat \<times> double \<times> double) list" where
  "exchanges [] s = []"
| "exchanges (e # sch) s =
     (if succeeds e s then [(fst e, fst s, increment_of (snd s ! fst e))] else [])
       @ exchanges sch (step e s)"

text \<open>The values the atomic holds in the course of a run, as any reader may sample them.\<close>

fun observed :: "(nat \<times> bool) list \<Rightarrow> tracker \<Rightarrow> double list" where
  "observed [] s = [fst s]"
| "observed (e # sch) s = fst s # observed sch (step e s)"

text \<open>A call that runs with no other call in flight: its load and one attempt.\<close>

definition incrementReadFraction :: "double \<Rightarrow> double \<Rightarrow> double" where
  "incrementReadFraction increment cell =
     fst (run [(0, False), (0, False)] (cell, [AtLoad increment]))"

text \<open>
  The calls that have not returned, and a bound on the steps a call still takes once the
  spurious failures are left out: an attempt fails otherwise only when another call's
  exchange has changed the atomic since \<^verbatim>\<open>current\<close> was read, and each call exchanges
  once.
\<close>

definition pending :: "call list \<Rightarrow> nat" where
  "pending calls = length (filter (\<lambda>c. \<not> returned c) calls)"

fun steps_left :: "double \<Rightarrow> nat \<Rightarrow> call \<Rightarrow> nat" where
  "steps_left cell k (AtLoad increment) = k + 1"
| "steps_left cell k (AtCas current increment) = (if cell = current then k else k + 1)"
| "steps_left cell k (Returned increment) = 0"

definition bound :: "nat \<Rightarrow> tracker \<Rightarrow> nat" where
  "bound i s = steps_left (fst s) (pending (snd s)) (snd s ! i)"

text \<open>
  The doubles that non-negative increments keep ordered: the numbers above \<open>-\<infinity>\<close>. (The
  sum of \<open>-\<infinity>\<close> and \<open>+\<infinity>\<close> is a NaN, and a NaN compares with nothing.)
\<close>

definition number :: "double \<Rightarrow> bool" where
  "number x = (is_double x \<and> x \<noteq> NaN \<and> x \<noteq> NInf)"

text \<open>
  Division of doubles. With one zero for both signed zeros, a zero divisor is taken as the
  positive zero: a non-zero number divided by it is the infinity of its own sign. The
  divisors of this development are converted sample counts, which are never the negative
  zero, and the product of the frame rate and the playback rate.
\<close>

fun ddiv :: "double \<Rightarrow> double \<Rightarrow> double" where
  "ddiv (Finite a) (Finite b) =
     (if b = 0 then (if a = 0 then NaN else if 0 < a then PInf else NInf)
      else round_double (a / b))"
| "ddiv NaN _ = NaN"
| "ddiv _ NaN = NaN"
| "ddiv (Finite a) PInf = Finite 0"
| "ddiv (Finite a) NInf = Finite 0"
| "ddiv PInf (Finite b) = (if 0 \<le> b then PInf else NInf)"
| "ddiv NInf (Finite b) = (if 0 \<le> b then NInf else PInf)"
| "ddiv _ _ = NaN"

text \<open>
  Modelled from the spec: the increment by which the reader advances the fraction for each
  decoded sample, \<open>1 / numSamples\<close> (section 4.3, step d). The header declares the member
  \<^verbatim>\<open>double m_fpf\<close> without an initialiser; the division is in \<^verbatim>\<open>Movie.cpp\<close>.
\<close>

definition sample_increment :: "size_t \<Rightarrow> double" where
  "sample_increment m_numSamples = ddiv (Finite 1) (double_of_size_t m_numSamples)"

subsection \<open>The bounded concurrent buffer\<close>

text \<open>
  Modelled from the spec: \<^verbatim>\<open>concurrent_buffer\<close>, the class of \<^verbatim>\<open>concurrency.h\<close> that
  the header includes for its members \<^verbatim>\<open>m_cpuFrameBuffer\<close> and \<^verbatim>\<open>m_gpuFrameBuffer\<close>.
  Section 4.1: a thread-safe queue of fixed capacity; \<^verbatim>\<open>push\<close> inserts, or blocks until a
  slot frees or the buffer is closed; \<^verbatim>\<open>pop\<close> removes the oldest item, or blocks until
  one is available or the buffer is closed; \<^verbatim>\<open>close\<close> wakes the blocked callers with a
  closed status. Section 5: the state is a queue protected by a mutex, so the operations of
  concurrent callers take effect one at a time. An operation that blocks leaves the
  buffer as it is and is attempted again when the buffer has changed.
\<close>

record 'a concurrent_buffer =
  items :: "'a list"
  capacity :: nat
  closed :: bool

datatype 'r attempt = Completed 'r | Blocks | ClosedFailure

definition new_buffer :: "nat \<Rightarrow> 'a concurrent_buffer" where
  "new_buffer n = \<lparr> items = [], capacity = n, closed = False \<rparr>"

definition is_full :: "'a concurrent_buffer \<Rightarrow> bool" where
  "is_full b = (capacity b \<le> length (items b))"

definition push :: "'a \<Rightarrow> 'a concurrent_buffer \<Rightarrow> 'a concurrent_buffer attempt" where
  "push item b =
     (if closed b then ClosedFailure
      else if is_full b then Blocks
      else Completed (b\<lparr> items := items b @ [item] \<rparr>))"

definition pop :: "'a concurrent_buffer \<Rightarrow> ('a \<times> 'a concurrent_buffer) attempt" where
  "pop b =
     (if closed b then ClosedFailure
      else case items b of
             [] \<Rightarrow> Blocks
           | item # rest \<Rightarrow> Completed (item, b\<lparr> items := rest \<rparr>))"

definition close :: "'a concurrent_buffer \<Rightarrow> 'a concurrent_buffer" where
  "close b = b\<lparr> closed := True \<rparr>"

text \<open>Closing and reopening, which clears the buffer (section 4.5, on seek).\<close>

definition reopen :: "'a concurrent_buffer \<Rightarrow> 'a concurrent_buffer" where
  "reopen b = b\<lparr> items := [], closed := False \<rparr>"

text \<open>The operations that the threads of a run perform on one buffer, in the order they take effect.\<close>

datatype 'a buffer_op = Push 'a | Pop | Close | Reopen

fun buffer_step :: "'a buffer_op \<Rightarrow> 'a concurrent_buffer \<Rightarrow> 'a concurrent_buffer" where
  "buffer_step (Push item) b = (case push item b of Completed b' \<Rightarrow> b' | _ \<Rightarrow> b)"
| "buffer_step Pop b = (case pop b of Completed (item, b') \<Rightarrow> b' | _ \<Rightarrow> b)"
| "buffer_step Close b = close b"
| "buffer_step Reopen b = reopen b"

fun buffer_run :: "'a buffer_op list \<Rightarrow> 'a concurrent_buffer \<Rightarrow> 'a concurrent_buffer" where
  "buffer_run [] b = b"
| "buffer_run (x # xs) b = buffer_run xs (buffer_step x b)"

subsection \<open>The collaborators: container, decoder, frames\<close>

text \<open>
  Modelled from the spec: the collaborators of section 6. The container reader gives, for
  a file that it can parse, the video track with its codec, size, frame rate and samples;
  the decoder turns the raw bytes of a sample into pixels. A raw sample either decodes to a
  payload or is corrupt. Which codecs have a decoder is a parameter \<open>supported\<close> of the
  model (\<^verbatim>\<open>Decoder.h\<close>).
\<close>

datatype RawSample = Good nat | Corrupt

record Track =
  t_codec :: string
  t_width :: "32 word"
  t_height :: "32 word"
  t_fps :: float32
  t_samples :: "RawSample list"

text \<open>
  Modelled from the spec: a frame (\<^verbatim>\<open>Frame.h\<close>) is a decoded payload with the index of
  its source sample (section 3).
\<close>

record Frame =
  sample_index :: size_t
  pixels :: nat

text \<open>
  The errors. \<^verbatim>\<open>UnsupportedCodecError\<close> is the exception class of the header, which
  carries a message, and \<^verbatim>\<open>Error\<close> is what the header documents the constructor to throw
  when the file cannot be read. \<open>DecodeError\<close>, the failure to decode one sample, is
  taken from section 7 of the specification.
\<close>

datatype error = Error string | UnsupportedCodecError string | DecodeError size_t

text \<open>
  Modelled from the spec: the decoder (\<^verbatim>\<open>Decoder.h\<close>). Decoding fails with an
  unsupported-codec error when there is no decoder for the codec (section 6), and with a
  per-sample error on a corrupt sample (section 7).
\<close>

definition decode :: "(string \<Rightarrow> bool) \<Rightarrow> string \<Rightarrow> size_t \<Rightarrow> RawSample \<Rightarrow> error + Frame" where
  "decode supported codec i raw =
     (if \<not> supported codec then Inl (UnsupportedCodecError codec)
      else case raw of
             Corrupt \<Rightarrow> Inl (DecodeError i)
           | Good p \<Rightarrow> Inr \<lparr> sample_index = i, pixels = p \<rparr>)"

subsection \<open>The members of \<^verbatim>\<open>Movie\<close>\<close>

text \<open>
  The data members of the class that the operations below use, under their names in the
  header. Times are rational seconds. \<open>lastError\<close> is no member of the header: it is
  modelled from the spec, which has the reader record a sticky error when a sample fails
  to decode (sections 4.3 and 7).
\<close>

record Movie =
  m_filename :: string
  m_options :: Options
  m_currentFrame :: "Frame option"
  m_videoTrack :: Track
  m_fps :: float32
  m_playbackRate :: float32
  m_width :: "32 word"
  m_height :: "32 word"
  m_codec :: string
  m_numSamples :: size_t
  m_currentPBO :: size_t
  m_forceRefreshCurrentFrame :: bool
  m_isPlaying :: bool
  m_jobsPending :: bool
  m_loop :: bool
  m_readFraction :: double
  m_cpuFrameBuffer :: "Frame concurrent_buffer"
  m_gpuFrameBuffer :: "Frame concurrent_buffer"
  m_lastFrameQueuedAt :: rat
  lastError :: "error option"

text \<open>
  The default member initialisers of the header, which every constructor applies:
  \<^verbatim>\<open>m_currentFrame = nullptr\<close>, \<^verbatim>\<open>m_playbackRate = 1.f\<close>, \<^verbatim>\<open>m_width = 0\<close>,
  \<^verbatim>\<open>m_height = 0\<close>, \<^verbatim>\<open>m_numSamples = 0\<close>, \<^verbatim>\<open>m_currentPBO = 0\<close>,
  \<^verbatim>\<open>m_forceRefreshCurrentFrame = false\<close>, \<^verbatim>\<open>m_isPlaying{ false }\<close>,
  \<^verbatim>\<open>m_jobsPending{ false }\<close>, \<^verbatim>\<open>m_loop{ false }\<close>, \<^verbatim>\<open>m_readFraction = 0.\<close>. The
  members without an initialiser are what they are in the object given.
\<close>

definition member_initialisers :: "Movie \<Rightarrow> Movie" where
  "member_initialisers m =
     m\<lparr> m_currentFrame := None,
        m_playbackRate := Finite 1,
        m_width := 0,
        m_height := 0,
        m_numSamples := 0,
        m_currentPBO := 0,
        m_forceRefreshCurrentFrame := False,
        m_isPlaying := False,
        m_jobsPending := False,
        m_loop := False,
        m_readFraction := Finite 0 \<rparr>"

text \<open>
  Modelled from the spec: the members when the constructor has initialised them, before it
  prebuffers. Those that the constructor does not set keep the values of their default
  member initialisers. The size, the codec, the frame rate and the number of samples are
  those of the track found in the file (section 3, the metadata resolved once at open
  time); the two buffers are constructed with the capacities of the options (section 3,
  capacity fixed at construction); the time point is value-initialised; no error is
  recorded.
\<close>

definition members :: "string \<Rightarrow> Options \<Rightarrow> Track \<Rightarrow> Movie" where
  "members filename options track =
     \<lparr> m_filename = filename,
       m_options = options,
       m_currentFrame = None,
       m_videoTrack = track,
       m_fps = t_fps track,
       m_playbackRate = Finite 1,
       m_width = t_width track,
       m_height = t_height track,
       m_codec = t_codec track,
       m_numSamples = of_nat (length (t_samples track)),
       m_currentPBO = 0,
       m_forceRefreshCurrentFrame = False,
       m_isPlaying = False,
       m_jobsPending = False,
       m_loop = False,
       m_readFraction = Finite 0,
       m_cpuFrameBuffer = new_buffer (unat (cpuBufferSize options)),
       m_gpuFrameBuffer = new_buffer (unat (gpuBufferSize options)),
       m_lastFrameQueuedAt = 0,
       lastError = None \<rparr>"

text \<open>The accessors and the setter that the header defines inline.\<close>

definition getFilename :: "Movie \<Rightarrow> string" where
  "getFilename m = m_filename m"

definition getCodec :: "Movie \<Rightarrow> string" where
  "getCodec m = m_codec m"

definition getFramerate :: "Movie \<Rightarrow> float32" where
  "getFramerate m = m_fps m"

definition getWidth :: "Movie \<Rightarrow> 32 word" where
  "getWidth m = m_width m"

definition getHeight :: "Movie \<Rightarrow> 32 word" where
  "getHeight m = m_height m"

definition isPlaying :: "Movie \<Rightarrow> bool" where
  "isPlaying m = m_isPlaying m"

definition loop :: "bool \<Rightarrow> Movie \<Rightarrow> Movie" where
  "loop l m = m\<lparr> m_loop := l \<rparr>"

definition getPlaybackRate :: "Movie \<Rightarrow> float32" where
  "getPlaybackRate m = m_playbackRate m"

subsection \<open>The operations of \<^verbatim>\<open>Movie.cpp\<close>\<close>


text \<open>
  Modelled from the spec: \<^verbatim>\<open>getFrame\<close>, which the header declares as extracting and
  decoding the sample of a given index. An index beyond the track gives no frame.
\<close>

definition getFrame :: "(string \<Rightarrow> bool) \<Rightarrow> Movie \<Rightarrow> size_t \<Rightarrow> error + Frame" where
  "getFrame supported m i_sample =
     (if unat i_sample < length (t_samples (m_videoTrack m))
      then decode supported (m_codec m) i_sample (t_samples (m_videoTrack m) ! unat i_sample)
      else Inl (DecodeError i_sample))"

text \<open>
  Modelled from the spec: \<^verbatim>\<open>bufferNextCPUSample\<close>, the decode step of the reader
  (section 4.3). It computes the next sample index from the read fraction, decodes the
  sample, pushes the frame into the CPU buffer and advances the fraction by
  \<open>1 / numSamples\<close>. When the push would block, the step waits: nothing changes. At the
  end of the stream, which is an index that is no sample of the track (or a fraction that
  has no index), it resets the fraction to 0 when looping is enabled and stops playing
  otherwise. A sample that fails to decode is skipped, with the error recorded.
\<close>

definition bufferNextCPUSample :: "(string \<Rightarrow> bool) \<Rightarrow> Movie \<Rightarrow> Movie" where
  "bufferNextCPUSample supported m =
     (if is_full (m_cpuFrameBuffer m) \<or> closed (m_cpuFrameBuffer m) then m
      else case getReadSample (m_readFraction m) (m_numSamples m) of
             None \<Rightarrow> (if m_loop m then m\<lparr> m_readFraction := Finite 0 \<rparr>
                       else m\<lparr> m_isPlaying := False \<rparr>)
           | Some i \<Rightarrow>
               if m_numSamples m \<le> i
               then (if m_loop m then m\<lparr> m_readFraction := Finite 0 \<rparr>
                     else m\<lparr> m_isPlaying := False \<rparr>)
               else let advanced =
                          incrementReadFraction (sample_increment (m_numSamples m)) (m_readFraction m)
                    in (case getFrame supported m i of
                          Inl e \<Rightarrow> m\<lparr> lastError := Some e, m_readFraction := advanced \<rparr>
                        | Inr frame \<Rightarrow>
                            (case push frame (m_cpuFrameBuffer m) of
                               Completed b \<Rightarrow> m\<lparr> m_cpuFrameBuffer := b, m_readFraction := advanced \<rparr>
                             | _ \<Rightarrow> m)))"

text \<open>
  Modelled from the spec: \<^verbatim>\<open>read\<close>, one round of the reader's loop, which runs while the
  movie is playing (section 4.3).
\<close>

definition read :: "(string \<Rightarrow> bool) \<Rightarrow> Movie \<Rightarrow> Movie" where
  "read supported m = (if m_isPlaying m then bufferNextCPUSample supported m else m)"

text \<open>
  Modelled from the spec: \<^verbatim>\<open>bufferNextGPUSample\<close>, the upload. The header documents
  \<^verbatim>\<open>update\<close> as buffering frames to the GPU and queueing the next frame; the upload takes
  the oldest frame of the CPU buffer, without blocking, into the next GPU slot in
  round-robin order over the GPU buffer capacity (section 4.4), and the frame joins the
  GPU buffer.
\<close>

definition bufferNextGPUSample :: "Movie \<Rightarrow> Movie" where
  "bufferNextGPUSample m =
     (if is_full (m_gpuFrameBuffer m) then m
      else case pop (m_cpuFrameBuffer m) of
             Completed (frame, cpu) \<Rightarrow>
               (case push frame (m_gpuFrameBuffer m) of
                  Completed gpu \<Rightarrow>
                    m\<lparr> m_cpuFrameBuffer := cpu, m_gpuFrameBuffer := gpu,
                       m_currentPBO := (m_currentPBO m + 1) mod gpuBufferSize (m_options m) \<rparr>
                | _ \<Rightarrow> m)
           | _ \<Rightarrow> m)"

text \<open>
  Modelled from the spec: publishing the next frame (section 4.4). The oldest uploaded
  frame becomes the current frame, the time of the publish is recorded and a pending forced
  refresh is done with; when no frame is available the previous current frame stays.
\<close>

definition queueNextFrame :: "rat \<Rightarrow> Movie \<Rightarrow> Movie" where
  "queueNextFrame now m =
     (case pop (m_gpuFrameBuffer m) of
        Completed (frame, gpu) \<Rightarrow>
          m\<lparr> m_gpuFrameBuffer := gpu, m_currentFrame := Some frame,
             m_lastFrameQueuedAt := now, m_forceRefreshCurrentFrame := False \<rparr>
      | _ \<Rightarrow> m)"

text \<open>
  Modelled from the spec: the pacing interval of \<^verbatim>\<open>update\<close> (section 4.4),
  \<open>1 / (framerate * playbackRate)\<close>, in floating-point arithmetic (with the operations
  on doubles above). At a rate of 0 the interval is infinite.
\<close>

definition pacing_interval :: "Movie \<Rightarrow> float32" where
  "pacing_interval m = ddiv (Finite 1) (dmul (m_fps m) (m_playbackRate m))"

text \<open>
  Modelled from the spec: a publish is due when the time since the last publish exceeds
  the pacing interval (section 4.4).
\<close>

definition publish_due :: "rat \<Rightarrow> Movie \<Rightarrow> bool" where
  "publish_due now m = dless (pacing_interval m) (Finite (now - m_lastFrameQueuedAt m))"

text \<open>
  Modelled from the spec: \<^verbatim>\<open>update\<close> (section 4.4), called with the time of the call. It
  uploads, and it publishes when a publish is due or a forced refresh is pending.
\<close>

definition update :: "rat \<Rightarrow> Movie \<Rightarrow> Movie" where
  "update now m =
     (let m' = bufferNextGPUSample m
      in if m_forceRefreshCurrentFrame m' \<or> publish_due now m' then queueNextFrame now m' else m')"

text \<open>
  Modelled from the spec: \<^verbatim>\<open>doPrebufferWork\<close>, one round of the prebuffer routine
  (section 4.6). A round decodes a sample and uploads a frame; while the movie has no
  current frame it also publishes one, so that after prebuffering the first call of
  \<^verbatim>\<open>getCurrentFrame\<close> has the frame of the first sample (section 8).
\<close>

definition doPrebufferWork :: "(string \<Rightarrow> bool) \<Rightarrow> Movie \<Rightarrow> Movie" where
  "doPrebufferWork supported m =
     (let m' = bufferNextGPUSample (bufferNextCPUSample supported m)
      in if m_currentFrame m' = None then queueNextFrame (m_lastFrameQueuedAt m') m' else m')"

text \<open>
  What a round of prebuffering can still fill: the free slots of the two buffers, those of
  the GPU buffer counted twice because a frame reaches them through the CPU buffer, and
  the current frame while there is none.
\<close>

definition unfilled :: "Movie \<Rightarrow> nat" where
  "unfilled m =
     2 * (capacity (m_gpuFrameBuffer m) - length (items (m_gpuFrameBuffer m)))
     + (capacity (m_cpuFrameBuffer m) - length (items (m_cpuFrameBuffer m)))
     + (if m_currentFrame m = None then 3 else 0)"

text \<open>
  Modelled from the spec: \<^verbatim>\<open>prebuffer\<close> (section 4.6), which repeats the round until both
  buffers are full. It ends as well after a round that fills nothing, which is the case
  when the stream has ended or a sample has failed to decode.
\<close>

function prebuffer :: "(string \<Rightarrow> bool) \<Rightarrow> Movie \<Rightarrow> Movie" where
  "prebuffer supported m =
     (let m' = doPrebufferWork supported m
      in if unfilled m' < unfilled m then prebuffer supported m' else m')"
  by pat_completeness auto
termination
  by (relation "measure (\<lambda>(supported, m). unfilled m)") auto

declare prebuffer.simps [simp del]

text \<open>
  Modelled from the spec: \<^verbatim>\<open>play\<close> (section 4.5) starts the reader.
\<close>

definition play :: "Movie \<Rightarrow> Movie" where
  "play m = m\<lparr> m_isPlaying := True \<rparr>"

text \<open>
  Modelled from the spec: \<^verbatim>\<open>stop\<close> (section 4.5) ends the reader and returns when it
  has ended.
\<close>

definition stop :: "Movie \<Rightarrow> Movie" where
  "stop m = m\<lparr> m_isPlaying := False \<rparr>"

text \<open>
  Modelled from the spec: \<^verbatim>\<open>setPlaybackRate\<close> (section 4.5) sets the rate from which
  \<^verbatim>\<open>update\<close> computes its pacing interval.
\<close>

definition setPlaybackRate :: "float32 \<Rightarrow> Movie \<Rightarrow> Movie" where
  "setPlaybackRate rate m = m\<lparr> m_playbackRate := rate \<rparr>"

text \<open>
  Modelled from the spec: \<^verbatim>\<open>pause\<close>, after its description in the header: it pauses
  the movie and leaves the read thread running. The movie is paused by a rate of 0
  (section 4.4); nothing else is touched.
\<close>

definition pause :: "Movie \<Rightarrow> Movie" where
  "pause m = m\<lparr> m_playbackRate := Finite 0 \<rparr>"

text \<open>
  Modelled from the spec: \<^verbatim>\<open>seekToSample\<close> (section 4.5). The target becomes a read
  fraction, which overwrites the stored one; both buffers are cleared; the forced-refresh
  flag is set; and the buffers are refilled when the options ask for prebuffering.
\<close>

definition seekToSample :: "(string \<Rightarrow> bool) \<Rightarrow> size_t \<Rightarrow> Movie \<Rightarrow> Movie" where
  "seekToSample supported sample m =
     (let m' = m\<lparr> m_readFraction := ddiv (double_of_size_t sample) (double_of_size_t (m_numSamples m)),
                  m_cpuFrameBuffer := reopen (m_cpuFrameBuffer m),
                  m_gpuFrameBuffer := reopen (m_gpuFrameBuffer m),
                  m_forceRefreshCurrentFrame := True \<rparr>
      in if prebuffer_opt (m_options m) then prebuffer supported m' else m')"

text \<open>
  Modelled from the spec: the constructor (sections 4.3, 4.6 and 7). The container reader
  \<open>container\<close> gives the video track of a file, or nothing for a file it cannot read.
  The codec of the track is checked when the file is opened; then the members are
  initialised, and the buffers are filled when the options ask for it.
\<close>

definition Movie_ctor ::
  "(string \<Rightarrow> bool) \<Rightarrow> (string \<Rightarrow> Track option) \<Rightarrow> string \<Rightarrow> Options \<Rightarrow> error + Movie" where
  "Movie_ctor supported container filename options =
     (case container filename of
        None \<Rightarrow> Inl (Error filename)
      | Some track \<Rightarrow>
          if \<not> supported (t_codec track) then Inl (UnsupportedCodecError (t_codec track))
          else let m = members filename options track
               in Inr (if prebuffer_opt options then prebuffer supported m else m))"

text \<open>
  \<^verbatim>\<open>create\<close> of the header constructs a movie from its arguments; its parameter
  \<^verbatim>\<open>options\<close> has the default argument \<^verbatim>\<open>Options()\<close>.
\<close>

definition create ::
  "(string \<Rightarrow> bool) \<Rightarrow> (string \<Rightarrow> Track option) \<Rightarrow> string \<Rightarrow> Options option \<Rightarrow> error + Movie" where
  "create supported container filename options =
     Movie_ctor supported container filename
       (case options of None \<Rightarrow> Options_default | Some opts \<Rightarrow> opts)"

text \<open>
  The calls on a movie after its construction, with the rounds of the reader between them,
  in the order they take effect.
\<close>

datatype movie_op =
    Play | Stop | Pause | Loop bool | SetPlaybackRate float32 | SeekToSample size_t
  | Update rat | Prebuffer | Read

fun movie_step :: "(string \<Rightarrow> bool) \<Rightarrow> movie_op \<Rightarrow> Movie \<Rightarrow> Movie" where
  "movie_step supported Play m = play m"
| "movie_step supported Stop m = stop m"
| "movie_step supported Pause m = pause m"
| "movie_step supported (Loop l) m = loop l m"
| "movie_step supported (SetPlaybackRate rate) m = setPlaybackRate rate m"
| "movie_step supported (SeekToSample sample) m = seekToSample supported sample m"
| "movie_step supported (Update now) m = update now m"
| "movie_step supported Prebuffer m = prebuffer supported m"
| "movie_step supported Read m = read supported m"

fun movie_run :: "(string \<Rightarrow> bool) \<Rightarrow> movie_op list \<Rightarrow> Movie \<Rightarrow> Movie" where
  "movie_run supported [] m = m"
| "movie_run supported (x # xs) m = movie_run supported xs (movie_step supported x m)"

subsection \<open>Invariants of a movie\<close>

text \<open>
  Each buffer holds no more frames than its capacity, and the capacities are those of the
  options.
\<close>

definition bounded :: "Movie \<Rightarrow> bool" where
  "bounded m =
     (length (items (m_cpuFrameBuffer m)) \<le> capacity (m_cpuFrameBuffer m)
      \<and> length (items (m_gpuFrameBuffer m)) \<le> capacity (m_gpuFrameBuffer m)
      \<and> capacity (m_cpuFrameBuffer m) = unat (cpuBufferSize (m_options m))
      \<and> capacity (m_gpuFrameBuffer m) = unat (gpuBufferSize (m_options m)))"

text \<open>The codec of the movie has a decoder, and no unsupported-codec error is recorded.\<close>

fun is_unsupported :: "error option \<Rightarrow> bool" where
  "is_unsupported (Some (UnsupportedCodecError codec)) = True"
| "is_unsupported _ = False"

definition codec_checked :: "(string \<Rightarrow> bool) \<Rightarrow> Movie \<Rightarrow> bool" where
  "codec_checked supported m = (supported (m_codec m) \<and> \<not> is_unsupported (lastError m))"

text \<open>
  The controls of a new movie: not playing, not looping, at the native rate. The
  constructor's prebuffering keeps them.
\<close>

definition initial_controls :: "Movie \<Rightarrow> bool" where
  "initial_controls m = (\<not> isPlaying m \<and> getPlaybackRate m = Finite 1 \<and> \<not> m_loop m)"



subsection \<open>An example file\<close>

text \<open>
  A track of eight samples at two frames per second, in a container that has it under one
  file name and a copy with another codec under a second name; the decoder knows the
  first codec only.
\<close>

definition example_track :: Track where
  "example_track =
     \<lparr> t_codec = ''Hap1'', t_width = 64, t_height = 48, t_fps = Finite 2,
       t_samples = [Good 10, Good 11, Good 12, Good 13, Good 14, Good 15, Good 16, Good 17] \<rparr>"

definition example_supported :: "string \<Rightarrow> bool" where
  "example_supported codec = (codec = ''Hap1'')"

definition example_container :: "string \<Rightarrow> Track option" where
  "example_container filename =
     (if filename = ''movie.mov'' then Some example_track
      else if filename = ''other.mov'' then Some (example_track\<lparr> t_codec := ''mp4v'' \<rparr>)
      else None)"

text \<open>
  The frame of a sample of the example track, and the movie of the example file with
  default options in the states that prebuffering takes it through: its current frame,
  GPU slot, read fraction and the frames in the two buffers.
\<close>

definition example_frame :: "size_t \<Rightarrow> Frame" where
  "example_frame k = \<lparr> sample_index = k, pixels = 10 + unat k \<rparr>"

definition example_movie ::
  "Frame option \<Rightarrow> size_t \<Rightarrow> rat \<Rightarrow> Frame list \<Rightarrow> Frame list \<Rightarrow> Movie" where
  "example_movie current pbo fraction cpu gpu =
     (members ''movie.mov'' Options_default example_track)
       \<lparr> m_currentFrame := current, m_currentPBO := pbo, m_readFraction := Finite fraction,
         m_cpuFrameBuffer := \<lparr> items = cpu, capacity = 2, closed = False \<rparr>,
         m_gpuFrameBuffer := \<lparr> items = gpu, capacity = 2, closed = False \<rparr> \<rparr>"

text \<open>
  The movie of the example file constructed without prebuffering and then played, in the
  states of a short session: whether a forced refresh is pending, the playback rate, the
  time of the last publish, and the rest as above.
\<close>

definition Options_no_prebuffer :: Options where
  "Options_no_prebuffer = set_prebuffer False Options_default"

definition example_playing ::
  "bool \<Rightarrow> rat \<Rightarrow> rat \<Rightarrow> Frame option \<Rightarrow> size_t \<Rightarrow> rat \<Rightarrow> Frame list \<Rightarrow> Frame list \<Rightarrow> Movie" where
  "example_playing force rate queued current pbo fraction cpu gpu =
     (members ''movie.mov'' Options_no_prebuffer example_track)
       \<lparr> m_isPlaying := True, m_forceRefreshCurrentFrame := force,
         m_playbackRate := Finite rate, m_lastFrameQueuedAt := queued,
         m_currentFrame := current, m_currentPBO := pbo, m_readFraction := Finite fraction,
         m_cpuFrameBuffer := \<lparr> items = cpu, capacity = 2, closed = False \<rparr>,
         m_gpuFrameBuffer := \<lparr> items = gpu, capacity = 2, closed = False \<rparr> \<rparr>"

section \<open>Binary64 rounding\<close>

lemma bitlen_powi_bounds:
  assumes "0 < p"
  shows "(2::rat) powi (bitlen p - 1) \<le> of_int p" "of_int p < (2::rat) powi (bitlen p)"
proof -
  have b: "2 ^ nat (bitlen p - 1) \<le> p" "p < 2 ^ nat (bitlen p)"
    using bitlen_bounds[OF assms] by auto
  have ge: "1 \<le> bitlen p" using assms by (auto simp: bitlen_alt_def)
  have "(2::rat) powi (bitlen p - 1) = of_int (2 ^ nat (bitlen p - 1))"
    using ge by (simp add: power_int_nonneg_exp)
  also have "\<dots> \<le> of_int p" using b(1) by (simp only: of_int_le_iff)
  finally show "(2::rat) powi (bitlen p - 1) \<le> of_int p" .
  have "(of_int p :: rat) < of_int (2 ^ nat (bitlen p))" using b(2) by (simp only: of_int_less_iff)
  also have "\<dots> = 2 powi (bitlen p)" using ge by (simp add: power_int_nonneg_exp)
  finally show "of_int p < (2::rat) powi (bitlen p)" .
qed

lemma ilog2_bounds:
  assumes "0 < x"
  shows "2 powi (ilog2 x) \<le> x" "x < 2 powi (ilog2 x + 1)"
proof -
  obtain p q where pq: "quotient_of x = (p, q)" by (cases "quotient_of x")
  have q: "0 < q" using quotient_of_denom_pos[OF pq] .
  have x: "x = of_int p / of_int q" using quotient_of_div[OF pq] .
  have p: "0 < p" using assms q x by (simp add: zero_less_divide_iff)
  define e where "e = bitlen p - bitlen q"
  note bp = bitlen_powi_bounds[OF p] and bq = bitlen_powi_bounds[OF q]
  have xq: "x * of_int q = of_int p" using q by (simp add: x)
  have qr: "(0::rat) < of_int q" using q by simp
  have "x * of_int q < 2 powi (bitlen p)" using bp(2) by (simp add: xq)
  also have "\<dots> = 2 powi (e + 1) * 2 powi (bitlen q - 1)"
    by (simp add: e_def power_int_add[symmetric])
  also have "\<dots> \<le> 2 powi (e + 1) * of_int q"
    using bq(1) by (simp add: mult_left_mono)
  finally have up: "x < 2 powi (e + 1)" using qr by simp
  have "2 powi (e - 1) * of_int q < 2 powi (e - 1) * (2::rat) powi (bitlen q)"
    using bq(2) by (simp add: mult_strict_left_mono)
  also have "\<dots> = 2 powi (bitlen p - 1)"
    by (simp add: e_def power_int_add[symmetric])
  also have "\<dots> \<le> x * of_int q" using bp(1) by (simp add: xq)
  finally have lo: "2 powi (e - 1) \<le> x" using qr by simp
  have il: "ilog2 x = (if 2 powi e \<le> x then e else e - 1)"
    by (simp add: ilog2_def pq e_def Let_def)
  show "2 powi (ilog2 x) \<le> x" using lo by (simp add: il)
  show "x < 2 powi (ilog2 x + 1)" using up by (auto simp add: il)
qed

lemma powi2_mono: "a \<le> b \<Longrightarrow> (2::rat) powi a \<le> 2 powi b"
  by (rule power_int_increasing) simp_all

lemma powi2_less_imp: "(2::rat) powi a < 2 powi b \<Longrightarrow> a < b"
  using powi2_mono[of b a] by (cases "a < b") simp_all

lemma ilog2_unique:
  assumes "2 powi e \<le> x" "x < 2 powi (e + 1)"
  shows "ilog2 x = e"
proof -
  have x: "0 < x" using assms(1) by (rule less_le_trans[rotated]) simp
  note b = ilog2_bounds[OF x]
  have "(2::rat) powi e < 2 powi (ilog2 x + 1)" using assms(1) b(2) by simp
  then have 1: "e < ilog2 x + 1" by (rule powi2_less_imp)
  have "(2::rat) powi (ilog2 x) < 2 powi (e + 1)" using assms(2) b(1) by simp
  then have 2: "ilog2 x < e + 1" by (rule powi2_less_imp)
  show ?thesis using 1 2 by simp
qed


lemma rhe_floor: "\<lfloor>y\<rfloor> \<le> round_half_even y" "round_half_even y \<le> \<lfloor>y\<rfloor> + 1"
  by (simp_all add: round_half_even_def Let_def)

lemma rhe_of_int [simp]: "round_half_even (of_int k) = k"
  by (simp add: round_half_even_def)

lemma rhe_mono:
  assumes "x \<le> y"
  shows "round_half_even x \<le> round_half_even y"
proof (cases "\<lfloor>x\<rfloor> = \<lfloor>y\<rfloor>")
  case True
  then show ?thesis using assms by (auto simp add: round_half_even_def Let_def)
next
  case False
  then have "\<lfloor>x\<rfloor> + 1 \<le> \<lfloor>y\<rfloor>" using floor_mono[OF assms] by simp
  then show ?thesis using rhe_floor(2)[of x] rhe_floor(1)[of y] by linarith
qed

lemma rhe_le: "y \<le> of_int k \<Longrightarrow> round_half_even y \<le> k"
  using rhe_mono[of y "of_int k"] by simp

lemma rhe_ge: "of_int k \<le> y \<Longrightarrow> k \<le> round_half_even y"
  using rhe_mono[of "of_int k" y] by simp

lemma rhe_below_half:
  assumes "y < of_int k + 1 / 2"
  shows "round_half_even y \<le> k"
proof (cases "y < of_int k")
  case True
  then show ?thesis by (simp add: rhe_le)
next
  case False
  then have "\<lfloor>y\<rfloor> = k" using assms by (simp add: floor_unique)
  then show ?thesis using assms by (simp add: round_half_even_def Let_def)
qed

lemma quantum_pos [simp]: "0 < quantum x"
  by (simp add: quantum_def)

lemma exponent_bounds:
  assumes "0 < x"
  shows "x < 2 powi (exponent x + 1)" "- 1022 \<le> ilog2 x \<Longrightarrow> 2 powi (exponent x) \<le> x"
proof -
  have "x < 2 powi (ilog2 x + 1)" using ilog2_bounds(2)[OF assms] .
  also have "\<dots> \<le> 2 powi (exponent x + 1)" by (rule powi2_mono) (simp add: exponent_def)
  finally show "x < 2 powi (exponent x + 1)" .
  show "2 powi (exponent x) \<le> x" if "- 1022 \<le> ilog2 x"
    using that ilog2_bounds(1)[OF assms] by (simp add: exponent_def max_def)
qed

lemma exponent_ge [simp]: "- 1022 \<le> exponent x"
  by (simp add: exponent_def)

lemma exponent_unique:
  assumes "2 powi e \<le> x" "x < 2 powi (e + 1)" "- 1022 \<le> e"
  shows "exponent x = e"
  using ilog2_unique[OF assms(1,2)] assms(3) by (simp add: exponent_def)

lemma exponent_subnormal:
  assumes "0 < x" "x < 2 powi (- 1022)"
  shows "exponent x = - 1022"
proof -
  have "(2::rat) powi (ilog2 x) < 2 powi (- 1022)"
    using ilog2_bounds(1)[OF assms(1)] assms(2) by (rule le_less_trans)
  then have "ilog2 x < - 1022" by (rule powi2_less_imp)
  then show ?thesis by (simp add: exponent_def)
qed

lemma exponent_mono:
  assumes "0 < x" "x \<le> y"
  shows "exponent x \<le> exponent y"
proof -
  have y: "0 < y" using assms by simp
  have "(2::rat) powi (ilog2 x) < 2 powi (ilog2 y + 1)"
    using ilog2_bounds(1)[OF assms(1)] ilog2_bounds(2)[OF y] assms(2) by linarith
  then have "ilog2 x < ilog2 y + 1" by (rule powi2_less_imp)
  then show ?thesis by (simp add: exponent_def)
qed


lemma quantum_nonneg [simp]: "0 \<le> quantum x"
  by (simp add: quantum_def)

lemma quantum_times:
  "2 ^ 52 * quantum x = 2 powi (exponent x)" "2 ^ 53 * quantum x = 2 powi (exponent x + 1)"
proof -
  have "(2::rat) ^ 52 * quantum x = 2 powi 52 * 2 powi (exponent x - 52)"
    by (simp add: quantum_def)
  also have "\<dots> = 2 powi (52 + (exponent x - 52))"
    by (rule power_int_add[symmetric]) simp
  finally show "2 ^ 52 * quantum x = 2 powi (exponent x)" by simp
  have "(2::rat) ^ 53 * quantum x = 2 powi 53 * 2 powi (exponent x - 52)"
    by (simp add: quantum_def)
  also have "\<dots> = 2 powi (53 + (exponent x - 52))"
    by (rule power_int_add[symmetric]) simp
  finally show "2 ^ 53 * quantum x = 2 powi (exponent x + 1)" by (simp add: add.commute)
qed

lemma scaled_bounds:
  assumes "0 < x"
  shows "x / quantum x < 2 ^ 53" "- 1022 \<le> ilog2 x \<Longrightarrow> 2 ^ 52 \<le> x / quantum x"
proof -
  have "x < 2 ^ 53 * quantum x"
    using exponent_bounds(1)[OF assms] quantum_times(2)[of x] by simp
  then show "x / quantum x < 2 ^ 53"
    by (simp add: pos_divide_less_eq)
  show "2 ^ 52 \<le> x / quantum x" if "- 1022 \<le> ilog2 x"
  proof -
    have "2 ^ 52 * quantum x \<le> x"
      using exponent_bounds(2)[OF assms that] quantum_times(1)[of x] by simp
    then show ?thesis by (simp add: pos_le_divide_eq)
  qed
qed

lemma mantissa_bounds:
  assumes "0 < x"
  shows "0 \<le> round_half_even (x / quantum x)" "round_half_even (x / quantum x) \<le> 2 ^ 53"
    "- 1022 \<le> ilog2 x \<Longrightarrow> 2 ^ 52 \<le> round_half_even (x / quantum x)"
proof -
  have "(0::rat) \<le> x / quantum x" using assms by (simp add: less_imp_le)
  then show "0 \<le> round_half_even (x / quantum x)" using rhe_ge[of 0] by simp
  show "round_half_even (x / quantum x) \<le> 2 ^ 53"
    using scaled_bounds(1)[OF assms] by (intro rhe_le) simp
  show "2 ^ 52 \<le> round_half_even (x / quantum x)" if "- 1022 \<le> ilog2 x"
    using scaled_bounds(2)[OF assms that] by (intro rhe_ge) simp
qed

lemma round_mag_pos_eq:
  "0 < x \<Longrightarrow> round_mag x = of_int (round_half_even (x / quantum x)) * quantum x"
  by (simp add: round_mag_def)

lemma round_mag_nonneg: "0 \<le> x \<Longrightarrow> 0 \<le> round_mag x"
  using mantissa_bounds(1)[of x] by (cases "x = 0") (simp_all add: round_mag_def)

lemma round_mag_bounds:
  assumes "0 < x"
  shows "round_mag x \<le> 2 powi (exponent x + 1)"
    "- 1022 \<le> ilog2 x \<Longrightarrow> 2 powi (exponent x) \<le> round_mag x"
proof -
  have "rat_of_int (round_half_even (x / quantum x)) \<le> of_int (2 ^ 53)"
    using mantissa_bounds(2)[OF assms] by (simp only: of_int_le_iff)
  then have "of_int (round_half_even (x / quantum x)) * quantum x \<le> 2 ^ 53 * quantum x"
    by (intro mult_right_mono) simp_all
  also have "\<dots> = 2 powi (exponent x + 1)" by (rule quantum_times(2))
  finally show "round_mag x \<le> 2 powi (exponent x + 1)"
    by (simp only: round_mag_pos_eq[OF assms])
  show "2 powi (exponent x) \<le> round_mag x" if "- 1022 \<le> ilog2 x"
  proof -
    have "rat_of_int (2 ^ 52) \<le> of_int (round_half_even (x / quantum x))"
      using mantissa_bounds(3)[OF assms that] by (simp only: of_int_le_iff)
    then have "2 ^ 52 * quantum x \<le> of_int (round_half_even (x / quantum x)) * quantum x"
      by (intro mult_right_mono) simp_all
    then show ?thesis
      by (simp only: round_mag_pos_eq[OF assms] quantum_times(1))
  qed
qed


lemma quantum_nz [simp]: "quantum x \<noteq> 0"
  by (simp add: quantum_def)

lemma div_quantum_eq: "r / quantum s = y \<longleftrightarrow> r = y * quantum s"
  by (simp add: nonzero_divide_eq_eq)

lemma round_mag_mono:
  assumes "0 \<le> x" "x \<le> y"
  shows "round_mag x \<le> round_mag y"
proof (cases "x = 0")
  case True
  then show ?thesis using round_mag_nonneg[of y] assms by (simp add: round_mag_def)
next
  case False
  then have x: "0 < x" and y: "0 < y" using assms by simp_all
  have le: "exponent x \<le> exponent y" using exponent_mono[OF x assms(2)] .
  show ?thesis
  proof (cases "exponent x = exponent y")
    case True
    then have q: "quantum y = quantum x" by (simp add: quantum_def)
    have "x / quantum x \<le> y / quantum x" using assms(2) by (simp add: divide_right_mono)
    then have "round_half_even (x / quantum x) \<le> round_half_even (y / quantum x)"
      by (rule rhe_mono)
    then have "rat_of_int (round_half_even (x / quantum x)) \<le> of_int (round_half_even (y / quantum x))"
      by (simp only: of_int_le_iff)
    then have "of_int (round_half_even (x / quantum x)) * quantum x
        \<le> of_int (round_half_even (y / quantum x)) * quantum x"
      by (intro mult_right_mono) simp_all
    then show ?thesis by (simp only: round_mag_pos_eq[OF x] round_mag_pos_eq[OF y] q)
  next
    case False
    then have lt: "exponent x + 1 \<le> exponent y" using le by simp
    then have "- 1022 < exponent y" using exponent_ge[of x] by linarith
    then have ny: "- 1022 \<le> ilog2 y" by (simp add: exponent_def max_def split: if_splits)
    have "round_mag x \<le> 2 powi (exponent x + 1)" using round_mag_bounds(1)[OF x] .
    also have "\<dots> \<le> 2 powi (exponent y)" using lt by (rule powi2_mono)
    also have "\<dots> \<le> round_mag y" using round_mag_bounds(2)[OF y ny] .
    finally show ?thesis .
  qed
qed

lemma is_int_of_int [simp]: "is_int (of_int k)"
  by (simp add: is_int_def)

lemma is_intE: "is_int y \<Longrightarrow> (\<And>k. y = of_int k \<Longrightarrow> P) \<Longrightarrow> P"
  unfolding is_int_def by metis

lemma round_mag_fixed:
  assumes "0 \<le> r" "is_int (r / quantum r)"
  shows "round_mag r = r"
proof (cases "r = 0")
  case True
  then show ?thesis by (simp add: round_mag_def)
next
  case False
  then have r: "0 < r" using assms(1) by simp
  from assms(2) obtain k where k: "r / quantum r = of_int k" by (rule is_intE)
  have "round_mag r = of_int k * quantum r" by (simp add: round_mag_pos_eq[OF r] k)
  also have "\<dots> = r" using k by (simp only: div_quantum_eq)
  finally show ?thesis .
qed

lemma round_mag_is_int:
  assumes "0 < x" "round_mag x \<noteq> 0"
  shows "is_int (round_mag x / quantum (round_mag x))"
proof -
  define m where "m = round_half_even (x / quantum x)"
  define r where "r = round_mag x"
  have r: "r = of_int m * quantum x" by (simp add: r_def m_def round_mag_pos_eq[OF assms(1)])
  have rpos: "0 < r" using assms round_mag_nonneg[of x] by (simp add: r_def)
  have m53: "m \<le> 2 ^ 53" using mantissa_bounds(2)[OF assms(1)] by (simp add: m_def)
  consider (top) "m = 2 ^ 53" | (normal) "2 ^ 52 \<le> m" "m < 2 ^ 53" | (sub) "m < 2 ^ 52"
    using m53 by linarith
  then have "\<exists>k. r = of_int k * quantum r"
  proof cases
    case top
    have r2: "r = 2 powi (exponent x + 1)"
      using quantum_times(2)[of x] by (simp add: r top)
    have "exponent r = exponent x + 1"
    proof (rule exponent_unique)
      show "2 powi (exponent x + 1) \<le> r" by (simp add: r2)
      have "(2::rat) powi (exponent x + 1) < 2 powi (exponent x + 1 + 1)"
        by (rule power_int_strict_increasing) simp_all
      then show "r < 2 powi (exponent x + 1 + 1)" by (simp only: r2)
      show "- 1022 \<le> exponent x + 1" using exponent_ge[of x] by linarith
    qed
    then have "quantum r = 2 powi (exponent x - 52 + 1)" by (simp add: quantum_def)
    also have "\<dots> = 2 * quantum x" unfolding quantum_def
      by (subst power_int_add) simp_all
    finally have "r = of_int (2 ^ 52) * quantum r" by (simp add: r top)
    then show ?thesis by blast
  next
    case normal
    have "rat_of_int (2 ^ 52) \<le> of_int m" using normal(1) by (simp only: of_int_le_iff)
    then have "2 ^ 52 * quantum x \<le> r" unfolding r by (intro mult_right_mono) simp_all
    then have lo: "2 powi (exponent x) \<le> r" by (simp only: quantum_times(1))
    have "rat_of_int m < of_int (2 ^ 53)" using normal(2) by (simp only: of_int_less_iff)
    then have "r < 2 ^ 53 * quantum x" unfolding r by (intro mult_strict_right_mono) simp_all
    then have hi: "r < 2 powi (exponent x + 1)" by (simp only: quantum_times(2))
    have "exponent r = exponent x" using lo hi by (rule exponent_unique) simp
    then have "quantum r = quantum x" by (simp add: quantum_def)
    then show ?thesis using r by auto
  next
    case sub
    have "\<not> - 1022 \<le> ilog2 x" using mantissa_bounds(3)[OF assms(1)] sub by (auto simp: m_def)
    then have ex: "exponent x = - 1022" by (simp add: exponent_def)
    have "rat_of_int m < of_int (2 ^ 52)" using sub by (simp only: of_int_less_iff)
    then have "r < 2 ^ 52 * quantum x" unfolding r by (intro mult_strict_right_mono) simp_all
    then have "r < 2 powi (- 1022)" by (simp only: quantum_times(1) ex)
    then have "exponent r = - 1022" using rpos by (intro exponent_subnormal)
    then have "quantum r = quantum x" by (simp add: quantum_def ex)
    then show ?thesis using r by auto
  qed
  then obtain k where "r = of_int k * quantum r" ..
  then have "r / quantum r = of_int k" by (simp only: div_quantum_eq)
  then show ?thesis by (simp add: r_def[symmetric])
qed


lemma round_mag_zero [simp]: "round_mag 0 = 0"
  by (simp add: round_mag_def)

lemma round_nearest_nonneg: "0 \<le> x \<Longrightarrow> 0 \<le> round_nearest x"
  by (simp add: round_nearest_def round_mag_nonneg)

lemma round_nearest_nonpos: "x \<le> 0 \<Longrightarrow> round_nearest x \<le> 0"
  using round_mag_nonneg[of "- x"] by (auto simp add: round_nearest_def)

lemma round_nearest_minus: "round_nearest (- x) = - round_nearest x"
  by (cases "x = 0") (auto simp add: round_nearest_def)

lemma round_nearest_mono:
  assumes "x \<le> y"
  shows "round_nearest x \<le> round_nearest y"
proof -
  consider (pos) "0 \<le> x" | (neg) "y < 0" | (mixed) "x < 0" "0 \<le> y" by linarith
  then show ?thesis
  proof cases
    case pos
    then show ?thesis using assms round_mag_mono[of x y] by (simp add: round_nearest_def)
  next
    case neg
    then show ?thesis using assms round_mag_mono[of "- y" "- x"] by (simp add: round_nearest_def)
  next
    case mixed
    then show ?thesis
      using round_nearest_nonpos[of x] round_nearest_nonneg[of y] by linarith
  qed
qed

lemma round_mag_idem: "0 \<le> x \<Longrightarrow> round_mag (round_mag x) = round_mag x"
proof (cases "x = 0 \<or> round_mag x = 0")
  case True
  then show ?thesis by auto
next
  case False
  assume "0 \<le> x"
  then have x: "0 < x" using False by simp
  show ?thesis using False round_mag_nonneg[of x] x
    by (intro round_mag_fixed round_mag_is_int) simp_all
qed

lemma round_nearest_idem: "round_nearest (round_nearest x) = round_nearest x"
proof (cases "x < 0")
  case True
  then have "0 \<le> round_mag (- x)" by (simp add: round_mag_nonneg)
  then show ?thesis using True round_mag_idem[of "- x"]
    by (cases "round_mag (- x) = 0") (simp_all add: round_nearest_def)
next
  case False
  then show ?thesis using round_mag_nonneg[of x] round_mag_idem[of x]
    by (simp add: round_nearest_def)
qed

lemma round_nearest_fixed:
  assumes "representable r"
  shows "round_nearest r = r"
proof (cases "r < 0")
  case True
  then have "is_int (- r / quantum (- r))" using assms by (simp add: representable_def)
  then show ?thesis using True round_mag_fixed[of "- r"] by (simp add: round_nearest_def)
next
  case False
  then have "r = 0 \<or> is_int (r / quantum r)" using assms by (auto simp add: representable_def)
  then show ?thesis using False round_mag_fixed[of r] by (auto simp add: round_nearest_def)
qed

lemma round_nearest_representable:
  assumes "\<bar>round_nearest x\<bar> < 2 powi 1024"
  shows "representable (round_nearest x)"
proof -
  have *: "representable (round_mag y)" if "0 \<le> y" "round_mag y < 2 powi 1024" for y
  proof (cases "round_mag y = 0")
    case True
    then show ?thesis by (simp add: representable_def)
  next
    case False
    then have "0 < y" using that(1) by (cases "y = 0") simp_all
    then show ?thesis using round_mag_is_int[of y] False that round_mag_nonneg[of y]
      by (simp add: representable_def)
  qed
  have neg: "representable (- r)" if "representable r" for r
    using that by (simp add: representable_def)
  show ?thesis
  proof (cases "x < 0")
    case True
    then have "round_mag (- x) < 2 powi 1024"
      using assms round_mag_nonneg[of "- x"] by (simp add: round_nearest_def)
    then show ?thesis using True *[of "- x"] neg by (simp add: round_nearest_def)
  next
    case False
    then have "round_mag x < 2 powi 1024"
      using assms round_mag_nonneg[of x] by (simp add: round_nearest_def)
    then show ?thesis using False *[of x] by (simp add: round_nearest_def)
  qed
qed

lemma representable_lt_1:
  assumes "representable r" "0 \<le> r" "r < 1"
  shows "r \<le> 1 - 2 powi (- 53)"
proof (cases "r = 0")
  case True
  then show ?thesis by simp
next
  case False
  then have r: "0 < r" using assms(2) by simp
  from assms(1) False r have "is_int (r / quantum r)" by (simp add: representable_def)
  then obtain k where k: "r = of_int k * quantum r" by (auto elim: is_intE simp: div_quantum_eq)
  have "(2::rat) powi (ilog2 r) < 2 powi 0" using ilog2_bounds(1)[OF r] assms(3) by simp
  then have il: "ilog2 r < 0" by (rule powi2_less_imp)
  show ?thesis
  proof (cases "ilog2 r = - 1")
    case True
    then have "exponent r = - 1" by (simp add: exponent_def)
    then have q: "quantum r = 2 powi (- 53)" by (simp add: quantum_def)
    have "of_int k * (2::rat) powi (- 53) < 1" using assms(3) k q by simp
    then have "rat_of_int k < of_int (2 ^ 53)" by (simp add: power_int_minus field_simps)
    then have "k < 2 ^ 53" by (simp only: of_int_less_iff)
    then have "k \<le> 2 ^ 53 - 1" by simp
    then have "rat_of_int k \<le> of_int (2 ^ 53 - 1)" by (simp only: of_int_le_iff)
    then have "of_int k * (2::rat) powi (- 53) \<le> of_int (2 ^ 53 - 1) * 2 powi (- 53)"
      by (intro mult_right_mono) simp_all
    then show ?thesis using k q by (simp add: power_int_minus field_simps)
  next
    case False
    then have "exponent r + 1 \<le> - 1" using il by (simp add: exponent_def)
    then have "(2::rat) powi (exponent r + 1) \<le> 2 powi (- 1)" by (rule powi2_mono)
    then have "r < 2 powi (- 1)" using exponent_bounds(1)[OF r] by linarith
    then show ?thesis by (simp add: power_int_minus)
  qed
qed


lemma powi_exponent_shift: "2 powi (exponent d + j) = 2 powi (52 + j) * quantum d"
  unfolding quantum_def by (subst power_int_add[symmetric]) (simp_all add: algebra_simps)

lemma round_below_representable:
  assumes "representable d" "1 \<le> d"
  shows "round_nearest ((1 - 2 powi (- 53)) * d) < d"
proof -
  define q where "q = quantum d"
  define y where "y = (1 - 2 powi (- 53)) * d"
  have d: "0 < d" using assms(2) by simp
  have qpos: "0 < q" by (simp add: q_def)
  have c: "(1 - 2 powi (- 53)) = ((2::rat) ^ 53 - 1) / 2 ^ 53" by (simp add: power_int_minus field_simps)
  have ypos: "0 < y" using d by (simp add: y_def power_int_minus)
  have yd: "y < d" using d by (simp add: y_def power_int_minus field_simps)
  have "(2::rat) powi 0 < 2 powi (ilog2 d + 1)" using ilog2_bounds(2)[OF d] assms(2) by simp
  then have il: "0 \<le> ilog2 d" using powi2_less_imp[of 0 "ilog2 d + 1"] by simp
  then have e0: "0 \<le> exponent d" by (simp add: exponent_def)
  have lo: "2 powi (exponent d) \<le> d" using exponent_bounds(2)[OF d] il by simp
  have hi: "d < 2 powi (exponent d + 1)" using exponent_bounds(1)[OF d] .
  from assms(1) d have "is_int (d / quantum d)" by (simp add: representable_def)
  then obtain M where M: "d = of_int M * q" by (auto elim: is_intE simp: div_quantum_eq q_def)
  have e52: "2 powi (exponent d) = 2 ^ 52 * q" using powi_exponent_shift[of d 0] by (simp add: q_def)
  have e53: "2 powi (exponent d + 1) = 2 ^ 53 * q" using powi_exponent_shift[of d 1] by (simp add: q_def)
  have "2 ^ 52 * q = 2 powi (exponent d)" by (rule e52[symmetric])
  also have "\<dots> \<le> d" by (rule lo)
  also have "d = of_int M * q" by (rule M)
  finally have "rat_of_int (2 ^ 52) \<le> of_int M" using qpos by simp
  then have M52: "2 ^ 52 \<le> M" by (simp only: of_int_le_iff)
  have rn: "round_nearest y = round_mag y" using ypos by (simp add: round_nearest_def)
  show ?thesis
  proof (cases "M = 2 ^ 52")
    case True
    have dq: "d = 2 ^ 52 * q" using M True by simp
    have yq: "y = (2 ^ 53 - 1) * (q / 2)" by (simp add: y_def c dq)
    have e51: "2 powi (exponent d - 1) = 2 ^ 51 * q" using powi_exponent_shift[of d "- 1"] by (simp add: q_def)
    have "exponent y = exponent d - 1"
    proof (rule exponent_unique)
      show "2 powi (exponent d - 1) \<le> y" using qpos by (simp add: e51 yq)
      have "d = 2 powi (exponent d)" using dq e52 by simp
      then show "y < 2 powi (exponent d - 1 + 1)" using yd by simp
      show "- 1022 \<le> exponent d - 1" using e0 by simp
    qed
    then have "quantum y = 2 powi (exponent d + (- 53))" by (simp add: quantum_def)
    also have "\<dots> = q / 2" using powi_exponent_shift[of d "- 53"] by (simp add: q_def power_int_minus)
    finally have qy: "quantum y = q / 2" .
    have "y / quantum y = y / (q / 2)" by (simp only: qy)
    also have "\<dots> = of_int (2 ^ 53 - 1)" using qpos by (simp add: yq)
    finally have "is_int (y / quantum y)" by (simp only: is_int_of_int)
    then have "round_mag y = y" using ypos by (intro round_mag_fixed) simp_all
    then have "round_nearest y < d" using yd rn by simp
    then show ?thesis by (simp only: y_def)
  next
    case False
    then have M1: "2 ^ 52 + 1 \<le> M" using M52 by simp
    have "of_int M * q = d" by (rule M[symmetric])
    also have "d < 2 powi (exponent d + 1)" by (rule hi)
    also have "\<dots> = 2 ^ 53 * q" by (rule e53)
    finally have "rat_of_int M < of_int (2 ^ 53)" using qpos by simp
    then have M53: "M < 2 ^ 53" by (simp only: of_int_less_iff)
    have yM: "y = (of_int M - of_int M / 2 ^ 53) * q" by (simp add: y_def c M field_simps)
    have Mr: "rat_of_int (2 ^ 52 + 1) \<le> of_int M" "rat_of_int M < of_int (2 ^ 53)"
      using M1 M53 by (simp_all only: of_int_le_iff of_int_less_iff)
    have frac: "rat_of_int M / 2 ^ 53 < 1" "1 / 2 < rat_of_int M / 2 ^ 53"
      using Mr by simp_all
    have "2 ^ 52 * q \<le> (of_int M - of_int M / 2 ^ 53) * q"
      using frac(1) Mr(1) qpos by (intro mult_right_mono) simp_all
    then have ylo: "2 powi (exponent d) \<le> y" by (simp only: e52 yM)
    have "exponent y = exponent d"
    proof (rule exponent_unique)
      show "2 powi (exponent d) \<le> y" by (rule ylo)
      show "y < 2 powi (exponent d + 1)" using yd hi by simp
      show "- 1022 \<le> exponent d" by simp
    qed
    then have qy: "quantum y = q" by (simp add: quantum_def q_def)
    have "y / q = of_int M - of_int M / 2 ^ 53" using qpos by (simp add: yM)
    also have "\<dots> < of_int (M - 1) + 1 / 2" using frac(2) by simp
    finally have "round_half_even (y / q) \<le> M - 1" by (rule rhe_below_half)
    then have "rat_of_int (round_half_even (y / q)) \<le> of_int (M - 1)" by (simp only: of_int_le_iff)
    then have "of_int (round_half_even (y / q)) * q \<le> of_int (M - 1) * q"
      using qpos by (intro mult_right_mono) simp_all
    also have "\<dots> < of_int M * q" using qpos by simp
    finally have "round_mag y < d" by (simp only: round_mag_pos_eq[OF ypos] qy M)
    then have "round_nearest y < d" using rn by simp
    then show ?thesis by (simp only: y_def)
  qed
qed


lemma representable_pow2:
  assumes "- 1022 \<le> k" "k \<le> 1023"
  shows "representable (2 powi k)"
proof -
  have e: "exponent (2 powi k) = k"
  proof (rule exponent_unique)
    show "(2::rat) powi k < 2 powi (k + 1)" by (rule power_int_strict_increasing) simp_all
  qed (use assms in simp_all)
  have "(2::rat) powi k / quantum (2 powi k) = 2 powi (k - (k - 52))"
    unfolding quantum_def e by (rule power_int_diff[symmetric]) simp
  also have "\<dots> = of_int (2 ^ 52)" by simp
  finally have "is_int (2 powi k / quantum (2 powi k))" by (simp only: is_int_of_int)
  moreover have "(2::rat) powi k < 2 powi 1024" using assms by (intro power_int_strict_increasing) simp_all
  ultimately show ?thesis by (simp add: representable_def)
qed

lemma round_nearest_pow2: "- 1022 \<le> k \<Longrightarrow> k \<le> 1023 \<Longrightarrow> round_nearest (2 powi k) = 2 powi k"
  by (rule round_nearest_fixed) (rule representable_pow2)

lemma round_nearest_below:
  assumes "d = round_nearest x" "round_nearest s = s" "s < d"
  shows "s < x"
proof (rule ccontr)
  assume "\<not> s < x"
  then have "round_nearest x \<le> round_nearest s" by (intro round_nearest_mono) simp
  then show False using assms by simp
qed

lemma round_double_Finite:
  "\<bar>round_nearest x\<bar> < 2 powi 1024 \<Longrightarrow> round_double x = Finite (round_nearest x)"
  by (auto simp add: round_double_def Let_def)

text \<open>Rounding a number whose binade is known, for evaluation at concrete inputs.\<close>

lemma representable_exact:
  assumes "2 powi e \<le> \<bar>r\<bar>" "\<bar>r\<bar> < 2 powi (e + 1)" "- 1022 \<le> e" "e \<le> 1023"
    "is_int (\<bar>r\<bar> * 2 powi (52 - e))"
  shows "representable r"
proof -
  have e: "exponent \<bar>r\<bar> = e" using assms(1-3) by (rule exponent_unique)
  have "(2::rat) powi (52 - e) = inverse (2 powi (e - 52))"
    using power_int_minus[of "2::rat" "e - 52"] by simp
  then have "\<bar>r\<bar> / quantum \<bar>r\<bar> = \<bar>r\<bar> * 2 powi (52 - e)"
    unfolding quantum_def e by (simp add: divide_inverse)
  then have "is_int (\<bar>r\<bar> / quantum \<bar>r\<bar>)" using assms(5) by simp
  moreover have "(2::rat) powi (e + 1) \<le> 2 powi 1024" using assms(4) by (intro powi2_mono) simp
  then have "\<bar>r\<bar> < 2 powi 1024" using assms(2) by (rule less_le_trans[rotated])
  ultimately show ?thesis by (simp add: representable_def)
qed

lemma round_double_representable:
  assumes "representable r"
  shows "round_double r = Finite r"
proof -
  have "\<bar>r\<bar> < 2 powi 1024" using assms by (auto simp add: representable_def)
  then show ?thesis
    using round_double_Finite[of r] by (simp add: round_nearest_fixed[OF assms])
qed

lemma round_double_exact:
  assumes "2 powi e \<le> \<bar>r\<bar>" "\<bar>r\<bar> < 2 powi (e + 1)" "- 1022 \<le> e" "e \<le> 1023"
    "is_int (\<bar>r\<bar> * 2 powi (52 - e))"
  shows "round_double r = Finite r"
  using assms by (intro round_double_representable representable_exact)

lemma round_double_zero [simp]: "round_double 0 = Finite 0"
  by (rule round_double_representable) (simp add: representable_def)

lemma is_double_round_double [simp]: "is_double (round_double x)"
proof -
  have "\<bar>round_nearest x\<bar> < 2 powi 1024"
    if "\<not> 2 powi 1024 \<le> round_nearest x" "\<not> round_nearest x \<le> - (2 powi 1024)"
    using that by (simp add: abs_less_iff)
  then show ?thesis
    by (auto simp add: round_double_def Let_def round_nearest_representable simp del: power_int_numeral)
qed

section \<open>The compare-and-retry loop\<close>

lemma step_length [simp]: "length (snd (step e s)) = length (snd s)"
  by (cases e; cases s) (simp split: prod.splits)

lemma call_step_increment [simp]: "increment_of (snd (call_step b cell c)) = increment_of c"
  by (cases c) simp_all

lemma step_increment_of [simp]: "map increment_of (snd (step e s)) = map increment_of (snd s)"
proof (cases e; cases s)
  fix i b cell calls
  assume e: "e = (i, b)" and s: "s = (cell, calls)"
  show ?thesis
  proof (cases "i < length calls")
    case True
    have "map increment_of (calls[i := snd (call_step b cell (calls ! i))]) = map increment_of calls"
      using True by (simp add: map_update list_update_same_conv)
    then show ?thesis using True by (simp add: e s split: prod.splits) (metis snd_conv)
  next
    case False
    then show ?thesis by (simp add: e s)
  qed
qed

lemma step_succeeds:
  assumes "succeeds e s"
  shows "fst (step e s) = dadd (fst s) (increment_of (snd s ! fst e))"
    "returned (snd (step e s) ! fst e)"
  using assms by (cases e; cases s; auto split: call.splits)+

lemma step_fails: "\<not> succeeds e s \<Longrightarrow> fst (step e s) = fst s"
  by (cases e; cases s) (auto split: call.splits prod.splits)

lemma run_accumulates:
  "fst (run sch s) = foldl dadd (fst s) (map (snd \<circ> snd) (exchanges sch s))"
proof (induction sch arbitrary: s)
  case Nil
  then show ?case by simp
next
  case (Cons e sch)
  show ?case
  proof (cases "succeeds e s")
    case True
    then show ?thesis using Cons[of "step e s"] by (simp add: step_succeeds(1))
  next
    case False
    then show ?thesis using Cons[of "step e s"] by (simp add: step_fails)
  qed
qed


lemma step_other [simp]: "i \<noteq> fst e \<Longrightarrow> snd (step e s) ! i = snd s ! i"
  by (cases e; cases s) (simp split: prod.splits)

lemma call_step_incrementD: "call_step b cell c = (cell', c') \<Longrightarrow> increment_of c' = increment_of c"
  using call_step_increment[of b cell c] by simp

lemma step_increment_nth [simp]: "increment_of (snd (step e s) ! i) = increment_of (snd s ! i)"
proof (cases "fst e = i \<and> i < length (snd s)")
  case True
  then show ?thesis
    by (cases e; cases s) (auto split: prod.splits dest: call_step_incrementD)
next
  case False
  then show ?thesis by (cases e; cases s) (auto split: prod.splits)
qed

lemma step_returned_iff:
  assumes "i < length (snd s)"
  shows "returned (snd (step e s) ! i) \<longleftrightarrow> returned (snd s ! i) \<or> (succeeds e s \<and> fst e = i)"
proof (cases "fst e = i")
  case True
  then show ?thesis using assms
    by (cases e; cases s; cases "snd s ! i") (auto split: prod.splits)
next
  case False
  then show ?thesis by auto
qed

lemma succeeds_not_returned: "succeeds e s \<Longrightarrow> \<not> returned (snd s ! fst e)"
  by (cases e; cases s) (auto split: call.splits)

lemma succeeds_length: "succeeds e s \<Longrightarrow> fst e < length (snd s)"
  by (cases e; cases s) simp

lemma exchanges_once:
  assumes "i < length (snd s)"
  shows "count_list (map fst (exchanges sch s)) i + (if returned (snd s ! i) then 1 else 0)
         = (if returned (snd (run sch s) ! i) then 1 else 0)"
  using assms
proof (induction sch arbitrary: s)
  case Nil
  then show ?case by simp
next
  case (Cons e sch)
  have i: "i < length (snd (step e s))" using Cons.prems by simp
  note IH = Cons.IH[OF i]
  show ?case
  proof (cases "succeeds e s \<and> fst e = i")
    case True
    then have "\<not> returned (snd s ! i)" using succeeds_not_returned by blast
    moreover have "returned (snd (step e s) ! i)" using True step_succeeds(2) by blast
    ultimately show ?thesis using IH True by simp
  next
    case False
    then have "returned (snd (step e s) ! i) \<longleftrightarrow> returned (snd s ! i)"
      using step_returned_iff[OF Cons.prems] by blast
    then show ?thesis using IH False by (auto split: if_splits)
  qed
qed

lemma exchanges_increment:
  assumes "(i, v, d) \<in> set (exchanges sch s)"
  shows "i < length (snd s) \<and> d = increment_of (snd s ! i)"
  using assms
proof (induction sch arbitrary: s)
  case Nil
  then show ?case by simp
next
  case (Cons e sch)
  from Cons.prems consider (head) "succeeds e s" "(i, v, d) = (fst e, fst s, increment_of (snd s ! fst e))"
    | (tail) "(i, v, d) \<in> set (exchanges sch (step e s))"
    by (auto split: if_splits)
  then show ?case
  proof cases
    case head
    then show ?thesis using succeeds_length by auto
  next
    case tail
    from Cons.IH[OF tail] show ?thesis by simp
  qed
qed


lemma filter_length_update:
  "j < length xs \<Longrightarrow>
   length (filter P (xs[j := y])) + (if P (xs ! j) then 1 else 0)
   = length (filter P xs) + (if P y then 1 else 0)"
proof (induction xs arbitrary: j)
  case Nil
  then show ?case by simp
next
  case (Cons x xs)
  then show ?case by (cases j) auto
qed

lemma pending_update_same:
  "(returned c \<longleftrightarrow> returned (calls ! j)) \<Longrightarrow> pending (calls[j := c]) = pending calls"
proof (cases "j < length calls")
  case True
  assume "returned c \<longleftrightarrow> returned (calls ! j)"
  then show ?thesis
    using filter_length_update[OF True, of "\<lambda>c. \<not> returned c" c] by (simp add: pending_def)
next
  case False
  then show ?thesis by (simp add: not_less list_update_beyond)
qed

lemma pending_update_returned:
  "j < length calls \<Longrightarrow> \<not> returned (calls ! j) \<Longrightarrow> returned c
   \<Longrightarrow> Suc (pending (calls[j := c])) = pending calls"
  using filter_length_update[of j calls "\<lambda>c. \<not> returned c" c] by (simp add: pending_def)

lemma pending_pos: "i < length calls \<Longrightarrow> \<not> returned (calls ! i) \<Longrightarrow> 0 < pending calls"
  unfolding pending_def by (simp add: length_pos_if_in_set filter_empty_conv) (metis nth_mem)

lemma steps_left_le: "steps_left cell k c \<le> k + 1"
  by (cases c) simp_all

lemma steps_left_mono: "k \<le> k' \<Longrightarrow> steps_left cell k c \<le> steps_left cell k' c"
  by (cases c) simp_all

lemma steps_left_Suc: "steps_left cell' k c \<le> steps_left cell (Suc k) c"
  by (cases c) simp_all

lemma bound_zero_iff:
  assumes "i < length (snd s)"
  shows "bound i s = 0 \<longleftrightarrow> returned (snd s ! i)"
  using pending_pos[OF assms] by (cases "snd s ! i") (auto simp add: bound_def)

lemma bound_step_le:
  assumes "i < length (snd s)"
  shows "bound i (step e s) \<le> bound i s"
proof (cases e; cases s)
  fix j b cell calls
  assume e: "e = (j, b)" and s: "s = (cell, calls)"
  show ?thesis
  proof (cases "j < length calls")
    case False
    then show ?thesis by (simp add: e s)
  next
    case j: True
    show ?thesis
    proof (cases "calls ! j")
      case (AtLoad d)
      have p: "pending (calls[j := AtCas cell d]) = pending calls"
        by (rule pending_update_same) (simp add: AtLoad)
      show ?thesis using j assms
        by (cases "i = j") (simp_all add: e s AtLoad bound_def p)
    next
      case (AtCas cur d)
      show ?thesis
      proof (cases "cell = cur \<and> \<not> b")
        case True
        have p: "Suc (pending (calls[j := Returned d])) = pending calls"
          using j by (intro pending_update_returned) (simp_all add: AtCas)
        show ?thesis
        proof (cases "i = j")
          case True
          then show ?thesis using j \<open>cell = cur \<and> \<not> b\<close> by (simp add: e s AtCas bound_def)
        next
          case False
          then show ?thesis using j \<open>cell = cur \<and> \<not> b\<close> steps_left_Suc[of _ "pending (calls[j := Returned d])" "calls ! i" cell]
            by (simp add: e s AtCas bound_def p)
        qed
      next
        case False
        have p: "pending (calls[j := AtCas x d]) = pending calls" for x
          by (rule pending_update_same) (simp add: AtCas)
        show ?thesis using j assms False
          by (cases "i = j") (auto simp add: e s AtCas bound_def p)
      qed
    next
      case (Returned d)
      then have "calls[j := Returned d] = calls" by (metis list_update_id)
      then show ?thesis using j by (simp add: e s Returned)
    qed
  qed
qed

lemma bound_step_own:
  assumes "i < length (snd s)" "\<not> returned (snd s ! i)"
  shows "bound i (step (i, False) s) < bound i s"
proof (cases s)
  fix cell calls
  assume s: "s = (cell, calls)"
  have i: "i < length calls" using assms(1) by (simp add: s)
  have pos: "0 < pending calls" using pending_pos[OF i] assms(2) by (simp add: s)
  show ?thesis
  proof (cases "calls ! i")
    case (AtLoad d)
    have p: "pending (calls[i := AtCas cell d]) = pending calls"
      by (rule pending_update_same) (simp add: AtLoad)
    show ?thesis using i by (simp add: s AtLoad bound_def p)
  next
    case (AtCas cur d)
    show ?thesis
    proof (cases "cell = cur")
      case True
      then show ?thesis using i pos by (simp add: s AtCas bound_def)
    next
      case False
      have p: "pending (calls[i := AtCas cell d]) = pending calls"
        by (rule pending_update_same) (simp add: AtCas)
      show ?thesis using i False by (simp add: s AtCas bound_def p)
    qed
  next
    case (Returned d)
    then show ?thesis using assms(2) by (simp add: s)
  qed
qed

lemma run_length [simp]: "length (snd (run sch s)) = length (snd s)"
  by (induction sch arbitrary: s) simp_all

lemma bound_run:
  assumes "i < length (snd s)"
  shows "bound i (run sch s) + count_list sch (i, False) \<le> bound i s
         \<or> returned (snd (run sch s) ! i)"
  using assms
proof (induction sch arbitrary: s)
  case Nil
  then show ?case by simp
next
  case (Cons e sch)
  have i: "i < length (snd (step e s))" using Cons.prems by simp
  note IH = Cons.IH[OF i]
  show ?case
  proof (cases "e = (i, False) \<and> \<not> returned (snd s ! i)")
    case True
    then have "bound i (step e s) < bound i s" using bound_step_own[OF Cons.prems] by simp
    then show ?thesis using IH True by auto
  next
    case False
    have le: "bound i (step e s) \<le> bound i s" using bound_step_le[OF Cons.prems] .
    show ?thesis
    proof (cases "e = (i, False)")
      case True
      then have "returned (snd s ! i)" using False by simp
      then have "returned (snd (step e s) ! i)" using step_returned_iff[OF Cons.prems] by simp
      then have "returned (snd (run sch (step e s)) ! i)"
        using exchanges_once[OF i, of sch] by (simp split: if_splits)
      then show ?thesis by simp
    next
      case False
      then show ?thesis using IH le by auto
    qed
  qed
qed

lemma pending_initial [simp]: "pending (map AtLoad ds) = length ds"
  by (simp add: pending_def)

lemma call_returns:
  assumes "i < length ds" "length ds + 1 \<le> count_list sch (i, False)"
  shows "returned (snd (run sch (v0, map AtLoad ds)) ! i)"
proof -
  have i: "i < length (snd (v0, map AtLoad ds))" using assms(1) by simp
  have b: "bound i (v0, map AtLoad ds) = length ds + 1" using assms(1) by (simp add: bound_def)
  show ?thesis
  proof (rule ccontr)
    assume n: "\<not> ?thesis"
    then have "bound i (run sch (v0, map AtLoad ds)) + count_list sch (i, False) \<le> length ds + 1"
      using bound_run[OF i, of sch] b by simp
    then have "bound i (run sch (v0, map AtLoad ds)) = 0" using assms(2) by simp
    then show False using n bound_zero_iff[of i "run sch (v0, map AtLoad ds)"] assms(1) by simp
  qed
qed


lemma incrementReadFraction_alone: "incrementReadFraction increment cell = dadd cell increment"
  by (simp add: incrementReadFraction_def)

lemma call_alone_returns:
  assumes "i < length (snd s)"
  shows "returned (snd (run [(i, False), (i, False)] s) ! i)"
proof (cases s)
  fix cell calls
  assume s: "s = (cell, calls)"
  then show ?thesis using assms by (cases "calls ! i") (simp_all add: s)
qed

lemma run_append: "run (sch @ sch') s = run sch' (run sch s)"
  by (induction sch arbitrary: s) simp_all

lemma dle_trans: "dle a b \<Longrightarrow> dle b c \<Longrightarrow> dle a c"
  by (cases a; cases b; cases c) simp_all

lemma dle_refl: "a \<noteq> NaN \<Longrightarrow> dle a a"
  by (cases a) simp_all

lemma dadd_nonneg:
  assumes "number x" "dle (Finite 0) d"
  shows "dle x (dadd x d)" "number (dadd x d)"
proof -
  have "dle x (dadd x d) \<and> number (dadd x d)"
  proof (cases x)
    case (Finite a)
    then have a: "representable a" using assms(1) by (simp add: number_def)
    have abig: "- (2 powi 1024) < a" using a by (auto simp add: representable_def abs_less_iff)
    show ?thesis
    proof (cases d)
      case d: (Finite b)
      then have b: "0 \<le> b" using assms(2) by simp
      have "round_nearest a \<le> round_nearest (a + b)" using b by (intro round_nearest_mono) simp
      then have le: "a \<le> round_nearest (a + b)" by (simp add: round_nearest_fixed[OF a])
      have "is_double (round_double (a + b))" by simp
      then show ?thesis using le abig
        by (auto simp add: Finite d number_def round_double_def Let_def simp del: power_int_numeral is_double_round_double)
    next
      case PInf
      then show ?thesis by (simp add: Finite number_def)
    next
      case NInf
      then show ?thesis using assms(2) by simp
    next
      case NaN
      then show ?thesis using assms(2) by simp
    qed
  next
    case PInf
    then show ?thesis using assms(2) by (cases d) (simp_all add: number_def)
  next
    case NInf
    then show ?thesis using assms(1) by (simp add: number_def)
  next
    case NaN
    then show ?thesis using assms(1) by (simp add: number_def)
  qed
  then show "dle x (dadd x d)" "number (dadd x d)" by simp_all
qed

lemma step_non_decreasing:
  assumes "number (fst s)" "\<forall>c \<in> set (snd s). dle (Finite 0) (increment_of c)"
  shows "dle (fst s) (fst (step e s))" "number (fst (step e s))"
    "\<forall>c \<in> set (snd (step e s)). dle (Finite 0) (increment_of c)"
proof -
  have n: "fst s \<noteq> NaN" using assms(1) by (simp add: number_def)
  show "\<forall>c \<in> set (snd (step e s)). dle (Finite 0) (increment_of c)"
  proof
    fix c assume "c \<in> set (snd (step e s))"
    then obtain i where i: "i < length (snd s)" "c = snd (step e s) ! i"
      by (auto simp add: in_set_conv_nth)
    then have "increment_of c = increment_of (snd s ! i)" by simp
    then show "dle (Finite 0) (increment_of c)" using assms(2) i(1) by simp
  qed
  have "dle (fst s) (fst (step e s)) \<and> number (fst (step e s))"
  proof (cases "succeeds e s")
    case True
    then have "dle (Finite 0) (increment_of (snd s ! fst e))"
      using assms(2) succeeds_length by simp
    then show ?thesis
      using dadd_nonneg[OF assms(1)] True by (simp add: step_succeeds(1))
  next
    case False
    then show ?thesis
      using assms(1) n by (simp add: step_fails dle_refl)
  qed
  then show "dle (fst s) (fst (step e s))" "number (fst (step e s))" by simp_all
qed

lemma observed_bounded_below:
  assumes "number (fst s)" "\<forall>c \<in> set (snd s). dle (Finite 0) (increment_of c)"
  shows "\<forall>y \<in> set (observed sch s). dle (fst s) y"
  using assms
proof (induction sch arbitrary: s)
  case Nil
  then show ?case by (simp add: dle_refl number_def)
next
  case (Cons e sch)
  note st = step_non_decreasing[OF Cons.prems, of e]
  have "\<forall>y \<in> set (observed sch (step e s)). dle (fst (step e s)) y"
    using st by (intro Cons.IH)
  then have "\<forall>y \<in> set (observed sch (step e s)). dle (fst s) y"
    using st(1) dle_trans by blast
  then show ?case using Cons.prems(1) by (simp add: dle_refl number_def)
qed

lemma observed_sorted:
  assumes "number (fst s)" "\<forall>c \<in> set (snd s). dle (Finite 0) (increment_of c)"
  shows "sorted_wrt dle (observed sch s)"
  using assms
proof (induction sch arbitrary: s)
  case Nil
  then show ?case by simp
next
  case (Cons e sch)
  note st = step_non_decreasing[OF Cons.prems, of e]
  have "\<forall>y \<in> set (observed sch (step e s)). dle (fst (step e s)) y"
    using st by (intro observed_bounded_below)
  then have "\<forall>y \<in> set (observed sch (step e s)). dle (fst s) y"
    using st(1) dle_trans by blast
  moreover have "sorted_wrt dle (observed sch (step e s))" using st by (intro Cons.IH)
  ultimately show ?case by simp
qed

text \<open>Dyadic rationals of at most 53 bits are binary64 numbers.\<close>

lemma representable_dyadic:
  assumes "\<bar>k\<bar> < 2 ^ 53" "j \<le> 1074"
  shows "representable (of_int k / 2 ^ j)"
proof (cases "k = 0")
  case True
  then show ?thesis by (simp add: representable_def)
next
  case False
  define a :: rat where "a = of_int \<bar>k\<bar> / 2 ^ j"
  have abs: "\<bar>rat_of_int k / 2 ^ j\<bar> = a" by (simp add: a_def)
  have k1: "1 \<le> \<bar>k\<bar>" using False by simp
  then have "rat_of_int 1 \<le> of_int \<bar>k\<bar>" by (simp only: of_int_le_iff)
  then have apos: "0 < a" by (simp add: a_def)
  have kr: "rat_of_int \<bar>k\<bar> < of_int (2 ^ 53)" using assms(1) by (simp only: of_int_less_iff)
  have a2: "a * 2 ^ j = of_int \<bar>k\<bar>" by (simp add: a_def)
  have n: "0 \<le> 52 - exponent a - int j"
  proof (cases "- 1022 \<le> ilog2 a")
    case True
    have "2 powi (exponent a) * 2 ^ j \<le> a * 2 ^ j"
      using exponent_bounds(2)[OF apos True] by (intro mult_right_mono) simp_all
    also have "\<dots> = of_int \<bar>k\<bar>" by (rule a2)
    also have "\<dots> < 2 powi 53" using kr by simp
    finally have "(2::rat) powi (exponent a) * 2 powi (int j) < 2 powi 53" by simp
    then have "(2::rat) powi (exponent a + int j) < 2 powi 53"
      by (subst power_int_add) simp_all
    then have "exponent a + int j < 53" by (rule powi2_less_imp)
    then show ?thesis by simp
  next
    case False
    then have "exponent a = - 1022" by (simp add: exponent_def)
    then show ?thesis using assms(2) by simp
  qed
  have "a / quantum a = a * 2 ^ j * 2 powi (52 - exponent a - int j)"
  proof -
    have "(2::rat) ^ j * 2 powi (52 - exponent a - int j)
        = 2 powi (int j) * 2 powi (52 - exponent a - int j)" by simp
    also have "\<dots> = 2 powi (52 - exponent a)"
      by (subst power_int_add[symmetric]) simp_all
    also have "\<dots> = inverse (2 powi (exponent a - 52))"
      using power_int_minus[of "2::rat" "exponent a - 52"] by simp
    finally show ?thesis by (simp add: quantum_def divide_inverse mult.assoc)
  qed
  also have "\<dots> = of_int \<bar>k\<bar> * 2 ^ nat (52 - exponent a - int j)"
    using n by (simp only: a2 power_int_nonneg_exp)
  also have "\<dots> = of_int (\<bar>k\<bar> * 2 ^ nat (52 - exponent a - int j))" by simp
  finally have int: "is_int (a / quantum a)" by (simp only: is_int_of_int)
  have "a \<le> of_int \<bar>k\<bar>" unfolding a_def by (simp add: divide_le_eq mult_le_cancel_left1 k1)
  also have "\<dots> < 2 powi 53" using kr by simp
  also have "\<dots> < (2::rat) powi 1024" by (rule power_int_strict_increasing) simp_all
  finally have "a < 2 powi 1024" .
  then show ?thesis using int apos by (simp only: representable_def abs) simp
qed

lemma round_double_dyadic:
  assumes "\<bar>k\<bar> < 2 ^ 53" "j \<le> 1074"
  shows "round_double (of_int k / 2 ^ j) = Finite (of_int k / 2 ^ j)"
  using assms by (intro round_double_representable representable_dyadic)

section \<open>The buffers and the movie\<close>

lemma buffer_step_bounded:
  assumes "length (items b) \<le> capacity b"
  shows "length (items (buffer_step x b)) \<le> capacity (buffer_step x b)"
    "capacity (buffer_step x b) = capacity b"
  using assms
  by (cases x; auto simp add: push_def pop_def close_def reopen_def is_full_def split: list.splits)+

lemma buffer_run_bounded:
  assumes "length (items b) \<le> capacity b"
  shows "length (items (buffer_run xs b)) \<le> capacity b \<and> capacity (buffer_run xs b) = capacity b"
  using assms
proof (induction xs arbitrary: b)
  case Nil
  then show ?case by simp
next
  case (Cons x xs)
  from buffer_step_bounded[OF Cons.prems, of x] Cons.IH[of "buffer_step x b"]
  show ?case by simp
qed

lemma push_Completed:
  "push x b = Completed b' \<Longrightarrow>
   capacity b' = capacity b \<and> items b' = items b @ [x] \<and> length (items b) < capacity b \<and> closed b' = closed b"
  by (auto simp add: push_def is_full_def split: if_splits)

lemma pop_Completed:
  "pop b = Completed (x, b') \<Longrightarrow>
   capacity b' = capacity b \<and> items b = x # items b' \<and> closed b' = closed b"
  by (auto simp add: pop_def split: if_splits list.splits)

lemma bounded_bufferNextCPUSample: "bounded m \<Longrightarrow> bounded (bufferNextCPUSample supported m)"
  by (auto simp add: bounded_def bufferNextCPUSample_def Let_def
      split: option.splits sum.splits attempt.splits dest!: push_Completed)

lemma bounded_bufferNextGPUSample: "bounded m \<Longrightarrow> bounded (bufferNextGPUSample m)"
  by (auto simp add: bounded_def bufferNextGPUSample_def
      split: attempt.splits prod.splits dest!: push_Completed pop_Completed)

lemma bounded_queueNextFrame: "bounded m \<Longrightarrow> bounded (queueNextFrame now m)"
  by (auto simp add: bounded_def queueNextFrame_def
      split: attempt.splits prod.splits dest!: pop_Completed)

lemma bufferNextCPUSample_keeps [simp]:
  "m_options (bufferNextCPUSample supported m) = m_options m"
  "m_codec (bufferNextCPUSample supported m) = m_codec m"
  "m_playbackRate (bufferNextCPUSample supported m) = m_playbackRate m"
  "m_forceRefreshCurrentFrame (bufferNextCPUSample supported m) = m_forceRefreshCurrentFrame m"
  "m_currentFrame (bufferNextCPUSample supported m) = m_currentFrame m"
  "m_gpuFrameBuffer (bufferNextCPUSample supported m) = m_gpuFrameBuffer m"
  "m_loop (bufferNextCPUSample supported m) = m_loop m"
  "m_lastFrameQueuedAt (bufferNextCPUSample supported m) = m_lastFrameQueuedAt m"
  by (simp_all add: bufferNextCPUSample_def Let_def split: option.split sum.split attempt.split)

lemma bufferNextGPUSample_keeps [simp]:
  "m_options (bufferNextGPUSample m) = m_options m"
  "m_codec (bufferNextGPUSample m) = m_codec m"
  "m_playbackRate (bufferNextGPUSample m) = m_playbackRate m"
  "m_forceRefreshCurrentFrame (bufferNextGPUSample m) = m_forceRefreshCurrentFrame m"
  "m_currentFrame (bufferNextGPUSample m) = m_currentFrame m"
  "m_isPlaying (bufferNextGPUSample m) = m_isPlaying m"
  "m_readFraction (bufferNextGPUSample m) = m_readFraction m"
  "m_loop (bufferNextGPUSample m) = m_loop m"
  "lastError (bufferNextGPUSample m) = lastError m"
  "m_lastFrameQueuedAt (bufferNextGPUSample m) = m_lastFrameQueuedAt m"
  by (simp_all add: bufferNextGPUSample_def split: attempt.split prod.split)

lemma queueNextFrame_keeps [simp]:
  "m_options (queueNextFrame now m) = m_options m"
  "m_codec (queueNextFrame now m) = m_codec m"
  "m_playbackRate (queueNextFrame now m) = m_playbackRate m"
  "m_isPlaying (queueNextFrame now m) = m_isPlaying m"
  "m_readFraction (queueNextFrame now m) = m_readFraction m"
  "m_loop (queueNextFrame now m) = m_loop m"
  "lastError (queueNextFrame now m) = lastError m"
  "m_cpuFrameBuffer (queueNextFrame now m) = m_cpuFrameBuffer m"
  by (simp_all add: queueNextFrame_def split: attempt.split prod.split)

lemma doPrebufferWork_keeps [simp]:
  "m_options (doPrebufferWork supported m) = m_options m"
  "m_codec (doPrebufferWork supported m) = m_codec m"
  "m_playbackRate (doPrebufferWork supported m) = m_playbackRate m"
  "m_loop (doPrebufferWork supported m) = m_loop m"
  by (simp_all add: doPrebufferWork_def Let_def)

lemma update_keeps [simp]:
  "m_options (update now m) = m_options m"
  "m_codec (update now m) = m_codec m"
  "m_playbackRate (update now m) = m_playbackRate m"
  "m_isPlaying (update now m) = m_isPlaying m"
  "m_readFraction (update now m) = m_readFraction m"
  "m_loop (update now m) = m_loop m"
  "lastError (update now m) = lastError m"
  by (simp_all add: update_def Let_def)

lemma read_keeps [simp]:
  "m_options (read supported m) = m_options m"
  "m_codec (read supported m) = m_codec m"
  "m_playbackRate (read supported m) = m_playbackRate m"
  "m_forceRefreshCurrentFrame (read supported m) = m_forceRefreshCurrentFrame m"
  "m_currentFrame (read supported m) = m_currentFrame m"
  "m_gpuFrameBuffer (read supported m) = m_gpuFrameBuffer m"
  "m_loop (read supported m) = m_loop m"
  by (simp_all add: read_def)

lemma bounded_doPrebufferWork: "bounded m \<Longrightarrow> bounded (doPrebufferWork supported m)"
  by (simp add: doPrebufferWork_def Let_def bounded_bufferNextCPUSample bounded_bufferNextGPUSample
      bounded_queueNextFrame)

lemma prebuffer_invariant:
  assumes "\<And>m. P m \<Longrightarrow> P (doPrebufferWork supported m)" "P m"
  shows "P (prebuffer supported m)"
  using assms
proof (induction supported m rule: prebuffer.induct)
  case (1 supported m)
  have step: "P (doPrebufferWork supported m)" using "1.prems" by blast
  show ?case
  proof (cases "unfilled (doPrebufferWork supported m) < unfilled m")
    case True
    have "P (prebuffer supported (doPrebufferWork supported m))"
      using "1.IH"[OF refl True "1.prems"(1) step] .
    then show ?thesis using True by (subst prebuffer.simps) (simp add: Let_def)
  next
    case False
    then show ?thesis using step by (subst prebuffer.simps) (simp add: Let_def)
  qed
qed

lemma prebuffer_keeps [simp]:
  "m_options (prebuffer supported m) = m_options m"
  "m_codec (prebuffer supported m) = m_codec m"
  "m_playbackRate (prebuffer supported m) = m_playbackRate m"
  "m_loop (prebuffer supported m) = m_loop m"
proof -
  have "m_options (prebuffer supported m) = m_options m \<and> m_codec (prebuffer supported m) = m_codec m
      \<and> m_playbackRate (prebuffer supported m) = m_playbackRate m
      \<and> m_loop (prebuffer supported m) = m_loop m"
    by (rule prebuffer_invariant[where P = "\<lambda>x. m_options x = m_options m \<and> m_codec x = m_codec m
      \<and> m_playbackRate x = m_playbackRate m \<and> m_loop x = m_loop m"]) simp_all
  then show "m_options (prebuffer supported m) = m_options m"
    "m_codec (prebuffer supported m) = m_codec m"
    "m_playbackRate (prebuffer supported m) = m_playbackRate m"
    "m_loop (prebuffer supported m) = m_loop m"
    by simp_all
qed

lemma movie_run_invariant:
  assumes "\<And>x m. P m \<Longrightarrow> P (movie_step supported x m)" "P m"
  shows "P (movie_run supported xs m)"
  using assms(2)
proof (induction xs arbitrary: m)
  case Nil
  then show ?case by simp
next
  case (Cons x xs)
  then show ?case using assms(1) by simp
qed

lemma bounded_prebuffer: "bounded m \<Longrightarrow> bounded (prebuffer supported m)"
  by (rule prebuffer_invariant) (rule bounded_doPrebufferWork)

lemma bounded_update: "bounded m \<Longrightarrow> bounded (update now m)"
  by (simp add: update_def Let_def bounded_bufferNextGPUSample bounded_queueNextFrame)

lemma bounded_seekToSample: "bounded m \<Longrightarrow> bounded (seekToSample supported sample m)"
proof -
  assume b: "bounded m"
  let ?m' = "m\<lparr> m_readFraction := ddiv (double_of_size_t sample) (double_of_size_t (m_numSamples m)),
                  m_cpuFrameBuffer := reopen (m_cpuFrameBuffer m),
                  m_gpuFrameBuffer := reopen (m_gpuFrameBuffer m),
                  m_forceRefreshCurrentFrame := True \<rparr>"
  have "bounded ?m'" using b by (simp add: bounded_def reopen_def)
  then show ?thesis
    by (simp add: seekToSample_def Let_def bounded_prebuffer)
qed

lemma bounded_step: "bounded m \<Longrightarrow> bounded (movie_step supported x m)"
proof (cases x)
  case (SeekToSample sample)
  assume "bounded m"
  then show ?thesis by (simp add: SeekToSample bounded_seekToSample)
next
  case (Update now)
  assume "bounded m"
  then show ?thesis by (simp add: Update bounded_update)
next
  case Prebuffer
  assume "bounded m"
  then show ?thesis by (simp add: Prebuffer bounded_prebuffer)
next
  case Read
  assume "bounded m"
  then show ?thesis by (simp add: Read read_def bounded_bufferNextCPUSample)
qed (simp_all add: bounded_def play_def stop_def pause_def loop_def setPlaybackRate_def)

lemma bounded_members: "bounded (members filename options track)"
  by (simp add: bounded_def members_def new_buffer_def)

lemma Movie_ctor_Inr:
  assumes "Movie_ctor supported container filename options = Inr m"
  obtains track where "container filename = Some track" "supported (t_codec track)"
    "m = (if prebuffer_opt options then prebuffer supported (members filename options track)
          else members filename options track)"
  using assms by (auto simp add: Movie_ctor_def Let_def split: option.splits if_splits)

lemma members_options [simp]: "m_options (members filename options track) = options"
  by (simp add: members_def)

lemma Movie_ctor_bounded:
  assumes "Movie_ctor supported container filename options = Inr m"
  shows "bounded m" "m_options m = options"
proof -
  from assms obtain track where
    m: "m = (if prebuffer_opt options then prebuffer supported (members filename options track)
          else members filename options track)"
    by (rule Movie_ctor_Inr)
  show "bounded m" unfolding m by (simp add: bounded_prebuffer bounded_members)
  show "m_options m = options" unfolding m by simp
qed

lemma step_options [simp]: "m_options (movie_step supported x m) = m_options m"
  by (cases x) (simp_all add: play_def stop_def pause_def loop_def setPlaybackRate_def
      seekToSample_def Let_def)

lemma movie_run_bounded:
  assumes "bounded m"
  shows "length (items (m_cpuFrameBuffer (movie_run supported xs m))) \<le> unat (cpuBufferSize (m_options m))"
    "length (items (m_gpuFrameBuffer (movie_run supported xs m))) \<le> unat (gpuBufferSize (m_options m))"
proof -
  have "bounded (movie_run supported xs m) \<and> m_options (movie_run supported xs m) = m_options m"
    by (rule movie_run_invariant[where P = "\<lambda>x. bounded x \<and> m_options x = m_options m"])
      (simp_all add: bounded_step assms)
  then show "length (items (m_cpuFrameBuffer (movie_run supported xs m))) \<le> unat (cpuBufferSize (m_options m))"
    "length (items (m_gpuFrameBuffer (movie_run supported xs m))) \<le> unat (gpuBufferSize (m_options m))"
    by (auto simp add: bounded_def)
qed

lemma movie_run_capacity:
  assumes "bounded m"
  shows "capacity (m_cpuFrameBuffer (movie_run supported xs m)) = unat (cpuBufferSize (m_options m))"
    "capacity (m_gpuFrameBuffer (movie_run supported xs m)) = unat (gpuBufferSize (m_options m))"
proof -
  have "bounded (movie_run supported xs m) \<and> m_options (movie_run supported xs m) = m_options m"
    by (rule movie_run_invariant[where P = "\<lambda>x. bounded x \<and> m_options x = m_options m"])
      (simp_all add: bounded_step assms)
  then show "capacity (m_cpuFrameBuffer (movie_run supported xs m)) = unat (cpuBufferSize (m_options m))"
    "capacity (m_gpuFrameBuffer (movie_run supported xs m)) = unat (gpuBufferSize (m_options m))"
    by (auto simp add: bounded_def)
qed
lemma getFrame_error:
  assumes "supported (m_codec m)" "getFrame supported m i = Inl e"
  shows "\<not> is_unsupported (Some e)"
  using assms by (auto simp add: getFrame_def decode_def split: if_splits RawSample.splits)

lemma getFrame_never_unsupported:
  "supported (m_codec m) \<Longrightarrow> getFrame supported m i \<noteq> Inl (UnsupportedCodecError codec)"
  using getFrame_error[of supported m i "UnsupportedCodecError codec"] by auto

lemma codec_checked_bufferNextCPUSample:
  assumes "codec_checked supported m"
  shows "codec_checked supported (bufferNextCPUSample supported m)"
proof -
  have s: "supported (m_codec m)" and e: "\<not> is_unsupported (lastError m)"
    using assms by (simp_all add: codec_checked_def)
  have "\<not> is_unsupported (lastError (bufferNextCPUSample supported m))"
    using e getFrame_error[of supported m, OF s]
    by (simp add: bufferNextCPUSample_def Let_def split: option.split sum.split attempt.split)
  then show ?thesis using s by (simp add: codec_checked_def)
qed

lemma codec_checked_doPrebufferWork:
  "codec_checked supported m \<Longrightarrow> codec_checked supported (doPrebufferWork supported m)"
  using codec_checked_bufferNextCPUSample[of supported m]
  by (simp add: codec_checked_def doPrebufferWork_def Let_def)

lemma codec_checked_prebuffer:
  "codec_checked supported m \<Longrightarrow> codec_checked supported (prebuffer supported m)"
  by (rule prebuffer_invariant) (rule codec_checked_doPrebufferWork)

lemma codec_checked_step:
  assumes "codec_checked supported m"
  shows "codec_checked supported (movie_step supported x m)"
proof (cases x)
  case (SeekToSample sample)
  let ?m' = "m\<lparr> m_readFraction := ddiv (double_of_size_t sample) (double_of_size_t (m_numSamples m)),
                  m_cpuFrameBuffer := reopen (m_cpuFrameBuffer m),
                  m_gpuFrameBuffer := reopen (m_gpuFrameBuffer m),
                  m_forceRefreshCurrentFrame := True \<rparr>"
  have "codec_checked supported ?m'" using assms by (simp add: codec_checked_def)
  then show ?thesis by (simp add: SeekToSample seekToSample_def Let_def codec_checked_prebuffer)
next
  case (Update now)
  then show ?thesis using assms by (simp add: codec_checked_def)
next
  case Prebuffer
  then show ?thesis using assms by (simp add: codec_checked_prebuffer)
next
  case Read
  then show ?thesis using assms by (simp add: read_def codec_checked_bufferNextCPUSample)
qed (use assms in \<open>simp_all add: codec_checked_def play_def stop_def pause_def loop_def setPlaybackRate_def\<close>)

lemma codec_checked_run:
  "codec_checked supported m \<Longrightarrow> codec_checked supported (movie_run supported xs m)"
  by (rule movie_run_invariant) (rule codec_checked_step)

lemma Movie_ctor_codec_checked:
  assumes "Movie_ctor supported container filename options = Inr m"
  shows "codec_checked supported m"
proof -
  from assms obtain track where t: "supported (t_codec track)" and
    m: "m = (if prebuffer_opt options then prebuffer supported (members filename options track)
          else members filename options track)"
    by (rule Movie_ctor_Inr)
  have "codec_checked supported (members filename options track)"
    using t by (simp add: codec_checked_def members_def)
  then show ?thesis unfolding m by (simp add: codec_checked_prebuffer)
qed

lemma Movie_ctor_unsupported:
  assumes "container filename = Some track" "\<not> supported (t_codec track)"
  shows "Movie_ctor supported container filename options = Inl (UnsupportedCodecError (t_codec track))"
  using assms by (simp add: Movie_ctor_def)

lemma is_unsupported_iff: "is_unsupported e \<longleftrightarrow> (\<exists>codec. e = Some (UnsupportedCodecError codec))"
  by (cases e rule: is_unsupported.cases) simp_all

lemma bufferNextCPUSample_not_playing:
  "\<not> m_isPlaying m \<Longrightarrow> \<not> m_isPlaying (bufferNextCPUSample supported m)"
  by (simp add: bufferNextCPUSample_def Let_def split: option.split sum.split attempt.split)

lemma initial_controls_doPrebufferWork:
  "initial_controls m \<Longrightarrow> initial_controls (doPrebufferWork supported m)"
  using bufferNextCPUSample_not_playing[of m supported]
  by (simp add: initial_controls_def isPlaying_def getPlaybackRate_def doPrebufferWork_def Let_def)

lemma initial_controls_prebuffer:
  "initial_controls m \<Longrightarrow> initial_controls (prebuffer supported m)"
  by (rule prebuffer_invariant) (rule initial_controls_doPrebufferWork)

lemma initial_controls_members: "initial_controls (members filename options track)"
  by (simp add: initial_controls_def isPlaying_def getPlaybackRate_def members_def)

text \<open>
  The constructor's initialisation keeps the default member initialisers, but for the size
  and the number of samples, which it takes from the track.
\<close>

lemma members_initialised:
  "member_initialisers (members filename options track)
   = (members filename options track)\<lparr> m_width := 0, m_height := 0, m_numSamples := 0 \<rparr>"
  by (simp add: member_initialisers_def members_def)

lemma double_of_size_t_Finite: "\<exists>d. double_of_size_t n = Finite d"
proof -
  define N :: rat where "N = of_int (uint n)"
  have "0 \<le> uint n" by simp
  then have "rat_of_int 0 \<le> of_int (uint n)" by (simp only: of_int_le_iff)
  then have N0: "0 \<le> N" by (simp only: N_def of_int_0)
  have "uint n < 2 ^ 64" using uint_bounded[of n] by simp
  then have "rat_of_int (uint n) < of_int (2 ^ 64)" by (simp only: of_int_less_iff)
  then have N64: "N \<le> 2 powi 64" by (simp add: N_def)
  have "round_nearest N \<le> round_nearest (2 powi 64)" using N64 by (rule round_nearest_mono)
  then have "round_nearest N \<le> 2 powi 64" using round_nearest_pow2[of 64] by simp
  moreover have "(2::rat) powi 64 < 2 powi 1024" by (rule power_int_strict_increasing) simp_all
  moreover have "0 \<le> round_nearest N" using N0 by (rule round_nearest_nonneg)
  ultimately have "\<bar>round_nearest N\<bar> < 2 powi 1024" by simp
  then have "round_double N = Finite (round_nearest N)" by (rule round_double_Finite)
  then show ?thesis by (simp only: double_of_size_t_def N_def) blast
qed

lemma getReadSample_zero: "getReadSample (Finite 0) n = Some 0"
proof -
  obtain d where "double_of_size_t n = Finite d" using double_of_size_t_Finite by blast
  then show ?thesis by (simp add: getReadSample_def trunc_rat_def)
qed






lemma read_rate_independent:
  "read supported (m\<lparr> m_playbackRate := rate \<rparr>) = (read supported m)\<lparr> m_playbackRate := rate \<rparr>"
  by (simp add: read_def bufferNextCPUSample_def getFrame_def Let_def
      split: option.split sum.split attempt.split)


section \<open>The example file\<close>

lemma eighths:
  "round_double (1 / 8) = Finite (1 / 8)"
  "round_double (1 / 4) = Finite (1 / 4)"
  "round_double (3 / 8) = Finite (3 / 8)"
  "round_double (1 / 2) = Finite (1 / 2)"
  "round_double (5 / 8) = Finite (5 / 8)"
  "round_double (3 / 4) = Finite (3 / 4)"
  using round_double_dyadic[of 1 3] round_double_dyadic[of 1 2] round_double_dyadic[of 3 3]
    round_double_dyadic[of 1 1] round_double_dyadic[of 5 3] round_double_dyadic[of 3 2]
  by simp_all

lemma units:
  "round_double 1 = Finite 1"
  "round_double 2 = Finite 2"
  "round_double 3 = Finite 3"
  "round_double 4 = Finite 4"
  "round_double 5 = Finite 5"
  "round_double 8 = Finite 8"
  using round_double_dyadic[of 1 0] round_double_dyadic[of 2 0] round_double_dyadic[of 3 0]
    round_double_dyadic[of 4 0] round_double_dyadic[of 5 0] round_double_dyadic[of 8 0]
  by simp_all

lemma sample_increment_8: "sample_increment 8 = Finite (1 / 8)"
  by (simp add: sample_increment_def double_of_size_t_def units eighths)

lemma getReadSample_8:
  "getReadSample (Finite 0) 8 = Some 0"
  "getReadSample (Finite (1 / 8)) 8 = Some 1"
  "getReadSample (Finite (1 / 4)) 8 = Some 2"
  "getReadSample (Finite (3 / 8)) 8 = Some 3"
  "getReadSample (Finite (1 / 2)) 8 = Some 4"
  "getReadSample (Finite (5 / 8)) 8 = Some 5"
  by (simp_all add: getReadSample_def double_of_size_t_def units trunc_rat_def)

lemmas example_defs =
  Let_def doPrebufferWork_def bufferNextCPUSample_def bufferNextGPUSample_def
  queueNextFrame_def members_def Options_default_def cpuBufferSize_def gpuBufferSize_def
  new_buffer_def is_full_def push_def pop_def example_track_def example_supported_def
  example_movie_def example_frame_def
  getFrame_def decode_def incrementReadFraction_alone sample_increment_8 getReadSample_8 eighths

lemma eight_not_le_one: "\<not> (8::size_t) \<le> 1"
  by (simp add: word_le_nat_alt)

lemma example_decode:
  assumes "length cpu < 2"
  shows
  "bufferNextCPUSample example_supported (example_movie current pbo 0 cpu gpu)
   = example_movie current pbo (1 / 8) (cpu @ [example_frame 0]) gpu"
  "bufferNextCPUSample example_supported (example_movie current pbo (1 / 8) cpu gpu)
   = example_movie current pbo (1 / 4) (cpu @ [example_frame 1]) gpu"
  "bufferNextCPUSample example_supported (example_movie current pbo (1 / 4) cpu gpu)
   = example_movie current pbo (3 / 8) (cpu @ [example_frame 2]) gpu"
  "bufferNextCPUSample example_supported (example_movie current pbo (3 / 8) cpu gpu)
   = example_movie current pbo (1 / 2) (cpu @ [example_frame 3]) gpu"
  "bufferNextCPUSample example_supported (example_movie current pbo (1 / 2) cpu gpu)
   = example_movie current pbo (5 / 8) (cpu @ [example_frame 4]) gpu"
  using assms by (simp_all add: example_defs eight_not_le_one)

lemma example_decode_full:
  "2 \<le> length cpu \<Longrightarrow>
   bufferNextCPUSample example_supported (example_movie current pbo fraction cpu gpu)
   = example_movie current pbo fraction cpu gpu"
  by (simp add: bufferNextCPUSample_def example_movie_def is_full_def)

lemma example_upload:
  "length gpu < 2 \<Longrightarrow>
   bufferNextGPUSample (example_movie current pbo fraction (frame # cpu) gpu)
   = example_movie current ((pbo + 1) mod 2) fraction cpu (gpu @ [frame])"
  "bufferNextGPUSample (example_movie current pbo fraction [] gpu)
   = example_movie current pbo fraction [] gpu"
  "2 \<le> length gpu \<Longrightarrow>
   bufferNextGPUSample (example_movie current pbo fraction cpu gpu)
   = example_movie current pbo fraction cpu gpu"
  by (simp_all add: bufferNextGPUSample_def example_movie_def is_full_def push_def pop_def
      members_def Options_default_def gpuBufferSize_def)

lemma example_publish:
  "queueNextFrame 0 (example_movie current pbo fraction cpu (frame # gpu))
   = example_movie (Some frame) pbo fraction cpu gpu"
  "queueNextFrame now (example_movie current pbo fraction cpu [])
   = example_movie current pbo fraction cpu []"
  by (simp_all add: queueNextFrame_def example_movie_def pop_def members_def)

lemma example_fields [simp]:
  "m_currentFrame (example_movie current pbo fraction cpu gpu) = current"
  "m_lastFrameQueuedAt (example_movie current pbo fraction cpu gpu) = 0"
  "m_readFraction (example_movie current pbo fraction cpu gpu) = Finite fraction"
  "items (m_cpuFrameBuffer (example_movie current pbo fraction cpu gpu)) = cpu"
  "items (m_gpuFrameBuffer (example_movie current pbo fraction cpu gpu)) = gpu"
  "isPlaying (example_movie current pbo fraction cpu gpu) = False"
  "getPlaybackRate (example_movie current pbo fraction cpu gpu) = Finite 1"
  by (simp_all add: example_movie_def members_def isPlaying_def getPlaybackRate_def)

lemma example_members:
  "members ''movie.mov'' Options_default example_track = example_movie None 0 0 [] []"
  by (simp add: example_movie_def members_def new_buffer_def Options_default_def
      cpuBufferSize_def gpuBufferSize_def)

lemma example_unfilled:
  "unfilled (example_movie current pbo fraction cpu gpu)
   = 2 * (2 - length gpu) + (2 - length cpu) + (if current = None then 3 else 0)"
  by (simp add: unfilled_def example_movie_def)

lemma prebuffer_unfold:
  "prebuffer supported m =
     (if unfilled (doPrebufferWork supported m) < unfilled m
      then prebuffer supported (doPrebufferWork supported m) else doPrebufferWork supported m)"
  by (subst prebuffer.simps) (simp add: Let_def)

lemma example_rounds:
  "doPrebufferWork example_supported (example_movie None 0 0 [] [])
   = example_movie (Some (example_frame 0)) 1 (1 / 8) [] []"
  "doPrebufferWork example_supported (example_movie (Some (example_frame 0)) 1 (1 / 8) [] [])
   = example_movie (Some (example_frame 0)) 0 (1 / 4) [] [example_frame 1]"
  "doPrebufferWork example_supported (example_movie (Some (example_frame 0)) 0 (1 / 4) [] [example_frame 1])
   = example_movie (Some (example_frame 0)) 1 (3 / 8) [] [example_frame 1, example_frame 2]"
  "doPrebufferWork example_supported
     (example_movie (Some (example_frame 0)) 1 (3 / 8) [] [example_frame 1, example_frame 2])
   = example_movie (Some (example_frame 0)) 1 (1 / 2) [example_frame 3] [example_frame 1, example_frame 2]"
  "doPrebufferWork example_supported
     (example_movie (Some (example_frame 0)) 1 (1 / 2) [example_frame 3] [example_frame 1, example_frame 2])
   = example_movie (Some (example_frame 0)) 1 (5 / 8) [example_frame 3, example_frame 4]
       [example_frame 1, example_frame 2]"
  "doPrebufferWork example_supported
     (example_movie (Some (example_frame 0)) 1 (5 / 8) [example_frame 3, example_frame 4]
       [example_frame 1, example_frame 2])
   = example_movie (Some (example_frame 0)) 1 (5 / 8) [example_frame 3, example_frame 4]
       [example_frame 1, example_frame 2]"
  by (simp_all add: doPrebufferWork_def Let_def example_decode example_decode_full example_upload
      example_publish)

lemma example_prebuffer:
  "prebuffer example_supported (example_movie None 0 0 [] [])
   = example_movie (Some (example_frame 0)) 1 (5 / 8) [example_frame 3, example_frame 4]
       [example_frame 1, example_frame 2]"
  apply (subst prebuffer_unfold, simp add: example_rounds example_unfilled)
  apply (subst prebuffer_unfold, simp add: example_rounds example_unfilled)
  apply (subst prebuffer_unfold, simp add: example_rounds example_unfilled)
  apply (subst prebuffer_unfold, simp add: example_rounds example_unfilled)
  apply (subst prebuffer_unfold, simp add: example_rounds example_unfilled)
  apply (subst prebuffer_unfold, simp add: example_rounds example_unfilled)
  done

lemma example_create:
  "create example_supported example_container ''movie.mov'' None
   = Inr (example_movie (Some (example_frame 0)) 1 (5 / 8) [example_frame 3, example_frame 4]
       [example_frame 1, example_frame 2])"
proof -
  have "supported_track": "example_supported (t_codec example_track)"
    by (simp add: example_supported_def example_track_def)
  have "prebuffer_opt Options_default" by (simp add: prebuffer_opt_def Options_default_def)
  then show ?thesis
    using "supported_track"
    by (simp add: create_def Movie_ctor_def example_container_def Let_def example_members
        example_prebuffer)
qed

lemma example_ctor_no_prebuffer:
  "Movie_ctor example_supported example_container ''movie.mov'' Options_no_prebuffer
   = Inr (members ''movie.mov'' Options_no_prebuffer example_track)"
  by (simp add: Movie_ctor_def example_container_def Let_def example_supported_def
      example_track_def Options_no_prebuffer_def set_prebuffer_def prebuffer_opt_def)

lemma example_ctor_unsupported:
  "Movie_ctor example_supported example_container ''other.mov'' options
   = Inl (UnsupportedCodecError ''mp4v'')"
  by (simp add: Movie_ctor_def example_container_def example_supported_def example_track_def)

lemmas playing_defs =
  example_playing_def members_def Options_no_prebuffer_def Options_default_def set_prebuffer_def
  cpuBufferSize_def gpuBufferSize_def prebuffer_opt_def new_buffer_def example_track_def

lemma example_play:
  "play (members ''movie.mov'' Options_no_prebuffer example_track)
   = example_playing False 1 0 None 0 0 [] []"
  by (simp add: play_def playing_defs)

lemma example_read:
  "read example_supported (example_playing force rate queued current pbo 0 [] gpu)
   = example_playing force rate queued current pbo (1 / 8) [example_frame 0] gpu"
  "read example_supported (example_playing force rate queued current pbo (1 / 2) [] gpu)
   = example_playing force rate queued current pbo (5 / 8) [example_frame 4] gpu"
  "read example_supported (example_playing force rate queued current pbo (1 / 8) [] gpu)
   = example_playing force rate queued current pbo (1 / 4) [example_frame 1] gpu"
  by (simp_all add: read_def playing_defs bufferNextCPUSample_def Let_def is_full_def push_def
      getFrame_def decode_def example_supported_def example_frame_def
      incrementReadFraction_alone sample_increment_8 getReadSample_8 eighths eight_not_le_one)

lemma example_playing_upload:
  "bufferNextGPUSample (example_playing force rate queued current pbo fraction [frame] [])
   = example_playing force rate queued current ((pbo + 1) mod 2) fraction [] [frame]"
  by (simp add: bufferNextGPUSample_def playing_defs is_full_def push_def pop_def)

lemma example_playing_publish:
  "queueNextFrame now (example_playing force rate queued current pbo fraction cpu [frame])
   = example_playing False rate now (Some frame) pbo fraction cpu []"
  by (simp add: queueNextFrame_def playing_defs pop_def)

lemma example_playing_fields [simp]:
  "m_forceRefreshCurrentFrame (example_playing force rate queued current pbo fraction cpu gpu) = force"
  "m_playbackRate (example_playing force rate queued current pbo fraction cpu gpu) = Finite rate"
  "m_currentFrame (example_playing force rate queued current pbo fraction cpu gpu) = current"
  "m_lastFrameQueuedAt (example_playing force rate queued current pbo fraction cpu gpu) = queued"
  "m_fps (example_playing force rate queued current pbo fraction cpu gpu) = Finite 2"
  "m_isPlaying (example_playing force rate queued current pbo fraction cpu gpu)"
  by (simp_all add: playing_defs)

lemma example_update_due:
  "update 1 (example_playing False 1 0 None 0 (1 / 8) [example_frame 0] [])
   = example_playing False 1 1 (Some (example_frame 0)) 1 (1 / 8) [] []"
  by (simp add: update_def Let_def example_playing_upload example_playing_publish
      publish_due_def pacing_interval_def units eighths)

lemma example_pause:
  "pause (example_playing force rate queued current pbo fraction cpu gpu)
   = example_playing force 0 queued current pbo fraction cpu gpu"
  by (simp add: pause_def example_playing_def)




lemma example_session_paused:
  "movie_run example_supported [Play, Read, Update 1, Pause]
     (members ''movie.mov'' Options_no_prebuffer example_track)
   = example_playing False 0 1 (Some (example_frame 0)) 1 (1 / 8) [] []"
  by (simp add: example_play example_read example_update_due example_pause)


section \<open>The sample index of the read fraction\<close>

text \<open>
  C1. For every double \<open>v\<close> with \<open>0 \<le> v < 1\<close> stored in \<^verbatim>\<open>m_readFraction\<close> and every
  positive \<^verbatim>\<open>m_numSamples\<close>, \<^verbatim>\<open>getReadSample\<close> is defined and returns an index below
  \<^verbatim>\<open>m_numSamples\<close>. This holds of any such value, however it was reached, so also of one
  accumulated by calls of \<^verbatim>\<open>incrementReadFraction\<close>. The rounding of the product cannot
  reach \<^verbatim>\<open>m_numSamples\<close>: the largest double below one is \<open>1 - 2 powi (- 53)\<close>, and its
  product with a double \<open>d\<close> rounds to a double below \<open>d\<close>.
\<close>

theorem getReadSample_in_range:
  assumes "is_double v" "dle (Finite 0) v" "dless v (Finite 1)" "0 < n"
  shows "\<exists>i. getReadSample v n = Some i \<and> i < n"
proof -
  from assms(2,3) obtain r where v: "v = Finite r" by (cases v) simp_all
  have r: "0 \<le> r" "r < 1" "representable r" using assms(1-3) by (simp_all add: v)
  define N :: rat where "N = of_int (uint n)"
  define d where "d = round_nearest N"
  define y where "y = (1 - 2 powi (- 53)) * d"
  define p where "p = round_nearest (r * d)"
  have "0 < uint n" using assms(4) by (simp add: word_less_def)
  then have "1 \<le> uint n" by simp
  then have "rat_of_int 1 \<le> of_int (uint n)" by (simp only: of_int_le_iff)
  then have N1: "1 \<le> N" by (simp add: N_def)
  have u64: "uint n < 2 ^ 64" using uint_bounded[of n] by simp
  then have "rat_of_int (uint n) < of_int (2 ^ 64)" by (simp only: of_int_less_iff)
  then have N64: "N < 2 powi 64" by (simp add: N_def)
  have "round_nearest (2 powi 0) \<le> d" unfolding d_def using N1 by (intro round_nearest_mono) simp
  then have d1: "1 \<le> d" using round_nearest_pow2[of 0] by simp
  have "d \<le> round_nearest (2 powi 64)" unfolding d_def using N64 by (intro round_nearest_mono) simp
  then have d64: "d \<le> 2 powi 64" using round_nearest_pow2[of 64] by simp
  have big: "(2::rat) powi 64 < 2 powi 1024" by (rule power_int_strict_increasing) simp_all
  have dfin: "\<bar>round_nearest N\<bar> < 2 powi 1024" using d1 d64 big by (simp add: d_def)
  have "double_of_size_t n = round_double N" by (simp only: double_of_size_t_def N_def)
  also have "\<dots> = Finite (round_nearest N)" using dfin by (rule round_double_Finite)
  finally have dn: "double_of_size_t n = Finite d" by (simp only: d_def)
  have drep: "representable d" unfolding d_def using dfin by (rule round_nearest_representable)
  have p0: "0 \<le> p" unfolding p_def using r(1) d1 by (intro round_nearest_nonneg) simp
  have "r * d \<le> y" unfolding y_def using representable_lt_1[OF r(3,1,2)] d1
    by (intro mult_right_mono) simp_all
  then have py: "p \<le> round_nearest y" unfolding p_def by (rule round_nearest_mono)
  have yd: "round_nearest y < d" unfolding y_def using drep d1 by (rule round_below_representable)
  have "round_nearest y < N"
    using d_def round_nearest_idem yd by (rule round_nearest_below)
  then have pN: "p < N" using py by simp
  then have pfin: "\<bar>round_nearest (r * d)\<bar> < 2 powi 1024" using p0 N64 big by (simp add: p_def)
  have prod: "dmul v (double_of_size_t n) = Finite p"
    by (simp add: v dn round_double_Finite[OF pfin] p_def)
  have fl0: "0 \<le> \<lfloor>p\<rfloor>" using p0 by simp
  have "rat_of_int \<lfloor>p\<rfloor> \<le> p" by (rule of_int_floor_le)
  also have "p < N" by (rule pN)
  finally have "rat_of_int \<lfloor>p\<rfloor> < of_int (uint n)" by (simp only: N_def)
  then have fln: "\<lfloor>p\<rfloor> < uint n" by (simp only: of_int_less_iff)
  then have fl64: "\<lfloor>p\<rfloor> < 2 ^ 64" using u64 by (rule less_trans)
  have res: "getReadSample v n = Some (word_of_int \<lfloor>p\<rfloor>)"
    using p0 fl0 fl64 by (simp add: getReadSample_def prod trunc_rat_def Let_def)
  have "uint (word_of_int \<lfloor>p\<rfloor> :: 64 word) = \<lfloor>p\<rfloor>"
    using fl0 fl64 by (simp add: uint_word_of_int take_bit_int_eq_self)
  then have "(word_of_int \<lfloor>p\<rfloor> :: 64 word) < n" using fln by (simp add: word_less_def)
  then show ?thesis using res by simp
qed

theorem getReadSample_in_range_witness:
  "is_double (Finite (1 / 2)) \<and> dle (Finite 0) (Finite (1 / 2)) \<and> dless (Finite (1 / 2)) (Finite 1)
   \<and> (0::size_t) < 10 \<and> (\<exists>i. getReadSample (Finite (1 / 2)) 10 = Some i \<and> i < 10)"
proof -
  have h1: "is_double (Finite (1 / 2))" using representable_pow2[of "- 1"] by simp
  have h2: "dle (Finite 0) (Finite (1 / 2))" by simp
  have h3: "dless (Finite (1 / 2)) (Finite 1)" by simp
  have h4: "(0::size_t) < 10" by simp
  show ?thesis using h1 h2 h3 h4 getReadSample_in_range[OF h1 h2 h3 h4] by blast
qed

section \<open>The sample index is the floor of the product\<close>

lemma round_double_FiniteD: "round_double x = Finite p \<Longrightarrow> p = round_nearest x"
  by (auto simp add: round_double_def Let_def split: if_splits simp del: power_int_numeral)

lemma double_of_size_t_nonneg:
  assumes "double_of_size_t n = Finite d"
  shows "0 \<le> d"
proof -
  have "0 \<le> uint n" by simp
  then have "rat_of_int 0 \<le> of_int (uint n)" by (simp only: of_int_le_iff)
  then have "0 \<le> rat_of_int (uint n)" by (simp only: of_int_0)
  then have "0 \<le> round_nearest (of_int (uint n))" by (rule round_nearest_nonneg)
  then show ?thesis using round_double_FiniteD[OF assms[unfolded double_of_size_t_def]] by simp
qed

text \<open>
  C2, as the code has it. The fraction is read by one atomic load, whose value is the
  argument \<open>v\<close>. \<^verbatim>\<open>getReadSample\<close> returns the floor of the product \<open>v * n\<close> as the
  code computes it, in double arithmetic, when \<open>v\<close> is not negative and the product is
  below \<open>2 ^ 64\<close>. The cast truncates towards zero, so for a negative product above
  \<open>-1\<close> it returns 0 and not the floor; for other negative products, and for products
  that are no \<^verbatim>\<open>size_t\<close>, the cast is undefined.
\<close>

theorem getReadSample_floor:
  assumes "dle (Finite 0) v" "dmul v (double_of_size_t n) = Finite p" "p < 2 ^ 64"
  shows "\<exists>i. getReadSample v n = Some i \<and> uint i = \<lfloor>p\<rfloor>"
proof -
  from assms(2) obtain r d where v: "v = Finite r" and d: "double_of_size_t n = Finite d"
    by (cases v; cases "double_of_size_t n") (simp_all split: if_splits)
  have r0: "0 \<le> r" using assms(1) by (simp add: v)
  have d0: "0 \<le> d" using d by (rule double_of_size_t_nonneg)
  have "p = round_nearest (r * d)" using assms(2) by (simp add: v d round_double_FiniteD)
  then have p0: "0 \<le> p" using r0 d0 by (simp add: round_nearest_nonneg)
  then have fl0: "0 \<le> \<lfloor>p\<rfloor>" by simp
  have "rat_of_int \<lfloor>p\<rfloor> \<le> p" by (rule of_int_floor_le)
  also have "p < of_int (2 ^ 64)" using assms(3) by simp
  finally have fl64: "\<lfloor>p\<rfloor> < 2 ^ 64" by (simp only: of_int_less_iff)
  have res: "getReadSample v n = Some (word_of_int \<lfloor>p\<rfloor>)"
    using p0 fl0 fl64 by (simp add: getReadSample_def assms(2) trunc_rat_def Let_def)
  have "uint (word_of_int \<lfloor>p\<rfloor> :: 64 word) = \<lfloor>p\<rfloor>"
    using fl0 fl64 by (simp add: uint_word_of_int take_bit_int_eq_self)
  then show ?thesis using res by simp
qed

lemma double_of_size_t_8: "double_of_size_t 8 = Finite 8"
proof -
  have "round_double 8 = Finite 8" by (rule round_double_exact[of 3]) (simp_all add: is_int_def)
  then show ?thesis by (simp add: double_of_size_t_def)
qed

lemma double_of_size_t_10: "double_of_size_t 10 = Finite 10"
proof -
  have "round_double 10 = Finite 10" by (rule round_double_exact[of 3]) (simp_all add: is_int_def)
  then show ?thesis by (simp add: double_of_size_t_def)
qed

lemma round_double_5: "round_double 5 = Finite 5"
  by (rule round_double_exact[of 2]) (simp_all add: is_int_def)

lemma round_double_neg_half: "round_double (- (1 / 2)) = Finite (- (1 / 2))"
  by (rule round_double_exact[of "- 1"]) (simp_all add: is_int_def)

theorem getReadSample_floor_witness:
  "dle (Finite 0) (Finite (1 / 2)) \<and> dmul (Finite (1 / 2)) (double_of_size_t 10) = Finite 5
   \<and> (5::rat) < 2 ^ 64 \<and> (\<exists>i. getReadSample (Finite (1 / 2)) 10 = Some i \<and> uint i = \<lfloor>5::rat\<rfloor>)"
proof -
  have h1: "dle (Finite 0) (Finite (1 / 2))" by simp
  have h2: "dmul (Finite (1 / 2)) (double_of_size_t 10) = Finite 5"
    by (simp add: double_of_size_t_10 round_double_5)
  have h3: "(5::rat) < 2 ^ 64" by simp
  show ?thesis using h1 h2 h3 getReadSample_floor[OF h1 h2 h3] by blast
qed

lemma double_of_size_t_1: "double_of_size_t 1 = Finite 1"
proof -
  have "round_double 1 = Finite 1" by (rule round_double_exact[of 0]) (simp_all add: is_int_def)
  then show ?thesis by (simp add: double_of_size_t_def)
qed

lemma representable_2_64: "representable 18446744073709551616"
  by (rule representable_exact[of 64]) (simp_all add: is_int_def power_int_def power_one_over)

lemma round_double_2_64: "round_double 18446744073709551616 = Finite 18446744073709551616"
  by (rule round_double_representable) (rule representable_2_64)

text \<open>
  The double nearest to \<open>3/10\<close> is \<open>5404319552844595 / 2 ^ 54\<close>, a little below
  \<open>3/10\<close>. Its product with 10 lies a quarter of a spacing below 3, and rounds to 3.
\<close>

lemma three_tenths_double: "representable (5404319552844595 / 18014398509481984)"
  using representable_dyadic[of 5404319552844595 54] by simp

lemma three_tenths_rhe: "round_half_even (27021597764222975 / 4) = 6755399441055744"
proof -
  have f: "\<lfloor>27021597764222975 / 4 :: rat\<rfloor> = 6755399441055743"
    by (rule floor_unique) simp_all
  show ?thesis unfolding round_half_even_def Let_def f by simp
qed

lemma three_tenths_times_ten:
  "round_double (27021597764222975 / 9007199254740992) = Finite 3"
proof -
  define x :: rat where "x = 27021597764222975 / 9007199254740992"
  have pos: "0 < x" by (simp add: x_def)
  have e: "exponent x = 1" by (rule exponent_unique) (simp_all add: x_def)
  have q: "quantum x = 1 / 2 ^ 51"
    unfolding quantum_def e by (simp add: power_int_def power_one_over)
  have s: "x / quantum x = 27021597764222975 / 4" unfolding q by (simp add: x_def)
  have "round_mag x = of_int (round_half_even (x / quantum x)) * quantum x"
    using pos by (rule round_mag_pos_eq)
  also have "\<dots> = 3" by (simp only: s three_tenths_rhe) (simp add: q)
  finally have r: "round_nearest x = 3" using pos by (simp add: round_nearest_def)
  have "(3::rat) < 2 powi 2" by simp
  also have "\<dots> < (2::rat) powi 1024" by (rule power_int_strict_increasing) simp_all
  finally have "\<bar>round_nearest x\<bar> < 2 powi 1024" unfolding r by simp
  then have "round_double x = Finite (round_nearest x)" by (rule round_double_Finite)
  then have "round_double x = Finite 3" by (simp only: r)
  then show ?thesis unfolding x_def .
qed

text \<open>
  The claim as stated, for every stored fraction, fails at three doubles. At \<open>-1/16\<close>
  with 8 samples the product is \<open>-1/2\<close>, whose floor is \<open>-1\<close>, and the cast returns
  0. At the double nearest to \<open>3/10\<close> with 10 samples, a fraction in \<open>[0, 1)\<close>, the
  floor of the exact product is 2, and the code, which rounds the product, returns 3. At
  \<open>2 ^ 64\<close> with one sample the product is no \<^verbatim>\<open>size_t\<close> and the cast is undefined.
\<close>

theorem getReadSample_floor_counterexample:
  "is_double (Finite (- (1 / 16)))
   \<and> dmul (Finite (- (1 / 16))) (double_of_size_t 8) = Finite (- (1 / 2))
   \<and> \<lfloor>- (1 / 2) :: rat\<rfloor> = - 1
   \<and> getReadSample (Finite (- (1 / 16))) 8 = Some 0
   \<and> is_double (Finite (5404319552844595 / 2 ^ 54))
   \<and> dle (Finite 0) (Finite (5404319552844595 / 2 ^ 54))
   \<and> dless (Finite (5404319552844595 / 2 ^ 54)) (Finite 1)
   \<and> \<lfloor>5404319552844595 / 2 ^ 54 * 10 :: rat\<rfloor> = 2
   \<and> getReadSample (Finite (5404319552844595 / 2 ^ 54)) 10 = Some 3
   \<and> is_double (Finite (2 ^ 64))
   \<and> getReadSample (Finite (2 ^ 64)) 1 = None"
proof -
  have a1: "representable (- (1 / 16))"
    by (rule representable_exact[of "- 4"]) (simp_all add: is_int_def)
  have a2: "dmul (Finite (- (1 / 16))) (double_of_size_t 8) = Finite (- (1 / 2))"
    by (simp add: double_of_size_t_8 round_double_neg_half)
  have a3: "\<lfloor>- (1 / 2) :: rat\<rfloor> = - 1" by (rule floor_unique) simp_all
  have "\<lceil>- (1 / 2) :: rat\<rceil> = 0" by (rule ceiling_unique) simp_all
  then have a4: "getReadSample (Finite (- (1 / 16))) 8 = Some 0"
    by (simp add: getReadSample_def double_of_size_t_8 round_double_neg_half trunc_rat_def)
  have b1: "is_double (Finite (5404319552844595 / 2 ^ 54))"
    using three_tenths_double by simp
  have b2: "dle (Finite 0) (Finite (5404319552844595 / 2 ^ 54))"
    "dless (Finite (5404319552844595 / 2 ^ 54)) (Finite 1)"
    by simp_all
  have b3: "\<lfloor>5404319552844595 / 2 ^ 54 * 10 :: rat\<rfloor> = 2" by (rule floor_unique) simp_all
  have "\<lfloor>3::rat\<rfloor> = 3" by simp
  then have b4: "getReadSample (Finite (5404319552844595 / 2 ^ 54)) 10 = Some 3"
    by (simp add: getReadSample_def double_of_size_t_10 three_tenths_times_ten trunc_rat_def)
  have c1: "is_double (Finite (2 ^ 64))" using representable_2_64 by simp
  have c2: "getReadSample (Finite (2 ^ 64)) 1 = None"
    by (simp add: getReadSample_def double_of_size_t_1 round_double_2_64 trunc_rat_def)
  from a1 have a1': "is_double (Finite (- (1 / 16)))" by simp
  show ?thesis by (intro conjI a1' a2 a3 a4 b1 b2 b3 b4 c1 c2)
qed
section \<open>Accumulating an increment\<close>

lemma round_double_quarter: "round_double (1 / 4) = Finite (1 / 4)"
  by (rule round_double_exact[of "- 2"]) (simp_all add: is_int_def)

lemma round_double_half: "round_double (1 / 2) = Finite (1 / 2)"
  by (rule round_double_exact[of "- 1"]) (simp_all add: is_int_def)

lemma round_double_three_quarters: "round_double (3 / 4) = Finite (3 / 4)"
  by (rule round_double_exact[of "- 1"]) (simp_all add: is_int_def)

text \<open>
  C3. A call of \<^verbatim>\<open>incrementReadFraction(d)\<close> that runs alone on a stored value \<open>v\<close>
  leaves \<open>v + d\<close> (in double arithmetic). With any number of calls in flight and under
  every schedule of their atomic steps, spurious failures included:
  \<^item> a successful exchange stores \<open>v' + d\<close> for the value \<open>v'\<close> the atomic holds at the
    exchange, and the call returns;
  \<^item> the stored value is the initial one with the increments of the exchanges added in
    their order;
  \<^item> a call has exchanged once if it has returned and not at all if it has not, and with
    its own increment: no increment is lost and none is applied twice;
  \<^item> no call waits for another: from every state that a schedule reaches, two steps of
    its own make it return;
  \<^item> a call returns within \<open>n + 1\<close> of its own steps that are no spurious failures,
    where \<open>n\<close> is the number of calls in flight.
\<close>

theorem incrementReadFraction_accumulates:
  "incrementReadFraction d v = dadd v d
   \<and> (\<forall>e s. succeeds e s \<longrightarrow>
         fst (step e s) = dadd (fst s) (increment_of (snd s ! fst e))
         \<and> returned (snd (step e s) ! fst e))
   \<and> (let s0 = (v0, map AtLoad ds) in
       fst (run sch s0) = foldl dadd v0 (map (snd \<circ> snd) (exchanges sch s0))
       \<and> (\<forall>i < length ds. count_list (map fst (exchanges sch s0)) i
             = (if returned (snd (run sch s0) ! i) then 1 else 0))
       \<and> (\<forall>(i, v', d') \<in> set (exchanges sch s0). i < length ds \<and> d' = ds ! i)
       \<and> (\<forall>i < length ds. returned (snd (run (sch @ [(i, False), (i, False)]) s0) ! i))
       \<and> (\<forall>i < length ds. length ds + 1 \<le> count_list sch (i, False)
             \<longrightarrow> returned (snd (run sch s0) ! i)))"
proof -
  let ?s0 = "(v0, map AtLoad ds)"
  have 1: "incrementReadFraction d v = dadd v d" by (rule incrementReadFraction_alone)
  have 2: "\<forall>e s. succeeds e s \<longrightarrow>
         fst (step e s) = dadd (fst s) (increment_of (snd s ! fst e))
         \<and> returned (snd (step e s) ! fst e)"
    using step_succeeds by blast
  have 3: "fst (run sch ?s0) = foldl dadd v0 (map (snd \<circ> snd) (exchanges sch ?s0))"
    using run_accumulates[of sch ?s0] by simp
  have 4: "\<forall>i < length ds. count_list (map fst (exchanges sch ?s0)) i
             = (if returned (snd (run sch ?s0) ! i) then 1 else 0)"
    using exchanges_once[of _ ?s0 sch] by simp
  have 5: "\<forall>(i, v', d') \<in> set (exchanges sch ?s0). i < length ds \<and> d' = ds ! i"
  proof (clarify)
    fix i v' d' assume "(i, v', d') \<in> set (exchanges sch ?s0)"
    from exchanges_increment[OF this] show "i < length ds \<and> d' = ds ! i" by simp
  qed
  have 6: "\<forall>i < length ds. returned (snd (run (sch @ [(i, False), (i, False)]) ?s0) ! i)"
    using call_alone_returns[of _ "run sch ?s0"] by (simp add: run_append)
  have 7: "\<forall>i < length ds. length ds + 1 \<le> count_list sch (i, False)
             \<longrightarrow> returned (snd (run sch ?s0) ! i)"
    using call_returns by blast
  show ?thesis unfolding Let_def using 1 2 3 4 5 6 7 by blast
qed

text \<open>
  Two calls, of increments \<open>1/4\<close> and \<open>1/2\<close>, on a fraction of 0: both load 0, the first
  exchanges, the attempt of the second fails and its next one succeeds on \<open>1/4\<close>.
\<close>

theorem incrementReadFraction_accumulates_witness:
  "succeeds (0, False) (Finite 0, [AtCas (Finite 0) (Finite (1 / 4)), AtCas (Finite 0) (Finite (1 / 2))])
   \<and> run [(0, False), (1, False), (0, False), (1, False), (1, False)]
        (Finite 0, map AtLoad [Finite (1 / 4), Finite (1 / 2)])
      = (Finite (3 / 4), [Returned (Finite (1 / 4)), Returned (Finite (1 / 2))])
   \<and> exchanges [(0, False), (1, False), (0, False), (1, False), (1, False)]
        (Finite 0, map AtLoad [Finite (1 / 4), Finite (1 / 2)])
      = [(0, Finite 0, Finite (1 / 4)), (1, Finite (1 / 4), Finite (1 / 2))]
   \<and> (1::nat) < length [Finite (1 / 4), Finite (1 / 2)]
   \<and> length [Finite (1 / 4), Finite (1 / 2)] + 1
        \<le> count_list [(0::nat, False), (1, False), (0, False), (1, False), (1, False)] (1, False)
   \<and> returned (snd (run [(0, False), (1, False), (0, False), (1, False), (1, False)]
        (Finite 0, map AtLoad [Finite (1 / 4), Finite (1 / 2)])) ! 1)
   \<and> incrementReadFraction (Finite (1 / 2)) (Finite (1 / 4)) = Finite (3 / 4)"
proof -
  let ?sch = "[(0::nat, False), (1, False), (0, False), (1, False), (1, False)]"
  let ?ds = "[Finite (1 / 4), Finite (1 / 2)]"
  note acc = incrementReadFraction_accumulates[of "Finite (1 / 2)" "Finite (1 / 4)" "Finite 0" ?ds ?sch,
      unfolded Let_def]
  have h1: "(1::nat) < length ?ds" by simp
  have h2: "length ?ds + 1 \<le> count_list ?sch (1, False)" by simp
  have r: "returned (snd (run ?sch (Finite 0, map AtLoad ?ds)) ! 1)"
    using acc h1 h2 by blast
  have a: "incrementReadFraction (Finite (1 / 2)) (Finite (1 / 4)) = Finite (3 / 4)"
    using acc by (simp add: round_double_three_quarters)
  have s: "succeeds (0, False) (Finite 0, [AtCas (Finite 0) (Finite (1 / 4)), AtCas (Finite 0) (Finite (1 / 2))])"
    by simp
  have run: "run ?sch (Finite 0, map AtLoad ?ds)
      = (Finite (3 / 4), [Returned (Finite (1 / 4)), Returned (Finite (1 / 2))])"
    by (simp add: round_double_quarter round_double_three_quarters)
  have ex: "exchanges ?sch (Finite 0, map AtLoad ?ds)
      = [(0, Finite 0, Finite (1 / 4)), (1, Finite (1 / 4), Finite (1 / 2))]"
    by (simp add: round_double_quarter round_double_three_quarters)
  show ?thesis by (intro conjI s run ex h1 h2 r a)
qed

section \<open>The read fraction never decreases\<close>

lemma sample_increment_nonneg: "dle (Finite 0) (sample_increment n)"
proof -
  show ?thesis
  proof (cases "double_of_size_t n")
    case (Finite d)
    have d0: "0 \<le> d" using Finite by (rule double_of_size_t_nonneg)
    have "0 \<le> round_nearest (1 / d)" using d0 by (intro round_nearest_nonneg) simp
    then have "dle (Finite 0) (round_double (1 / d))"
      by (auto simp add: round_double_def Let_def simp del: power_int_numeral)
    then show ?thesis using d0 by (simp add: sample_increment_def Finite)
  next
    case PInf
    then show ?thesis by (simp add: sample_increment_def)
  next
    case NInf
    then show ?thesis by (simp add: sample_increment_def)
  next
    case NaN
    then have "round_double (of_int (uint n)) = NaN" by (simp add: double_of_size_t_def)
    then show ?thesis by (simp add: round_double_def Let_def split: if_splits del: power_int_numeral)
  qed
qed

lemma double_of_size_t_4: "double_of_size_t 4 = Finite 4"
proof -
  have "round_double 4 = Finite 4" by (rule round_double_exact[of 2]) (simp_all add: is_int_def)
  then show ?thesis by (simp add: double_of_size_t_def)
qed

lemma sample_increment_4: "sample_increment 4 = Finite (1 / 4)"
  by (simp add: sample_increment_def double_of_size_t_4 round_double_quarter)

text \<open>
  C4. When the only writes to \<^verbatim>\<open>m_readFraction\<close> are calls of
  \<^verbatim>\<open>incrementReadFraction\<close> with increments that are not negative (as \<open>1 / numSamples\<close>
  is), and the fraction starts at a number above \<open>-\<infinity>\<close>, the values the atomic holds in
  the course of the run are in non-decreasing order, under every schedule of the calls;
  so is every sequence of values sampled from it over time.
\<close>

theorem read_fraction_non_decreasing:
  assumes "is_double v0" "v0 \<noteq> NaN" "v0 \<noteq> NInf" "\<forall>d \<in> set ds. dle (Finite 0) d"
  shows "sorted_wrt dle (observed sch (v0, map AtLoad ds))"
proof (rule observed_sorted)
  show "number (fst (v0, map AtLoad ds))" using assms(1-3) by (simp add: number_def)
  show "\<forall>c \<in> set (snd (v0, map AtLoad ds)). dle (Finite 0) (increment_of c)"
    using assms(4) by simp
qed

text \<open>A track of four samples: two samples decoded, one call after the other.\<close>

theorem read_fraction_non_decreasing_witness:
  "is_double (Finite 0) \<and> Finite 0 \<noteq> NaN \<and> Finite 0 \<noteq> NInf
   \<and> dle (Finite 0) (sample_increment 4)
   \<and> observed [(0, False), (0, False), (1, False), (1, False)]
        (Finite 0, map AtLoad [sample_increment 4, sample_increment 4])
      = [Finite 0, Finite 0, Finite (1 / 4), Finite (1 / 4), Finite (1 / 2)]
   \<and> sorted_wrt dle (observed [(0, False), (0, False), (1, False), (1, False)]
        (Finite 0, map AtLoad [sample_increment 4, sample_increment 4]))"
proof -
  have h1: "is_double (Finite 0)" by (simp add: representable_def)
  have h2: "Finite 0 \<noteq> NaN" by simp
  have h3: "Finite 0 \<noteq> NInf" by simp
  have h4: "\<forall>d \<in> set [sample_increment 4, sample_increment 4]. dle (Finite 0) d"
    by (simp add: sample_increment_nonneg)
  have obs: "observed [(0, False), (0, False), (1, False), (1, False)]
        (Finite 0, map AtLoad [sample_increment 4, sample_increment 4])
      = [Finite 0, Finite 0, Finite (1 / 4), Finite (1 / 4), Finite (1 / 2)]"
    by (simp add: sample_increment_4 round_double_quarter round_double_half)
  show ?thesis
    by (intro conjI h1 h2 h3 sample_increment_nonneg obs
        read_fraction_non_decreasing[OF h1 h2 h3 h4])
qed

section \<open>The buffers stay within their capacity\<close>

text \<open>
  C5. However the pushes and pops of concurrent callers (and the closings and
  reopenings) follow one another, a buffer created with a capacity never holds more items
  than that. So in every state that a constructed movie reaches by calls on it and
  rounds of its reader, the CPU buffer holds at most \<^verbatim>\<open>cpuBufferSize()\<close> frames and the
  GPU buffer at most \<^verbatim>\<open>gpuBufferSize()\<close> frames of the options it was constructed with:
  at most 2 and 2 for a movie created without options.
\<close>

theorem buffers_within_capacity:
  "length (items (buffer_run ops (new_buffer n))) \<le> n
   \<and> (Movie_ctor supported container filename options = Inr m \<longrightarrow>
        length (items (m_cpuFrameBuffer (movie_run supported xs m))) \<le> unat (cpuBufferSize options)
        \<and> length (items (m_gpuFrameBuffer (movie_run supported xs m))) \<le> unat (gpuBufferSize options))
   \<and> (create supported container filename None = Inr m' \<longrightarrow>
        length (items (m_cpuFrameBuffer (movie_run supported xs m'))) \<le> 2
        \<and> length (items (m_gpuFrameBuffer (movie_run supported xs m'))) \<le> 2)"
proof (intro conjI impI)
  show "length (items (buffer_run ops (new_buffer n))) \<le> n"
    using buffer_run_bounded[of "new_buffer n" ops] by (simp add: new_buffer_def)
next
  assume c: "Movie_ctor supported container filename options = Inr m"
  note b = Movie_ctor_bounded[OF c]
  show "length (items (m_cpuFrameBuffer (movie_run supported xs m))) \<le> unat (cpuBufferSize options)"
    using movie_run_bounded(1)[OF b(1), of supported xs] by (simp add: b(2))
  show "length (items (m_gpuFrameBuffer (movie_run supported xs m))) \<le> unat (gpuBufferSize options)"
    using movie_run_bounded(2)[OF b(1), of supported xs] by (simp add: b(2))
next
  assume "create supported container filename None = Inr m'"
  then have c: "Movie_ctor supported container filename Options_default = Inr m'"
    by (simp add: create_def)
  note b = Movie_ctor_bounded[OF c]
  show "length (items (m_cpuFrameBuffer (movie_run supported xs m'))) \<le> 2"
    using movie_run_bounded(1)[OF b(1), of supported xs]
    by (simp add: b(2) Options_default_def cpuBufferSize_def)
  show "length (items (m_gpuFrameBuffer (movie_run supported xs m'))) \<le> 2"
    using movie_run_bounded(2)[OF b(1), of supported xs]
    by (simp add: b(2) Options_default_def gpuBufferSize_def)
qed

text \<open>
  The example file, created without options: the constructor's prebuffering fills both
  buffers to their capacity of 2, and a session of calls keeps them within it.
\<close>

theorem buffers_within_capacity_witness:
  "create example_supported example_container ''movie.mov'' None
   = Inr (example_movie (Some (example_frame 0)) 1 (5 / 8) [example_frame 3, example_frame 4]
       [example_frame 1, example_frame 2])
   \<and> length (items (m_cpuFrameBuffer (movie_run example_supported [Play, Update 1, Read, Read, Update 2]
        (example_movie (Some (example_frame 0)) 1 (5 / 8) [example_frame 3, example_frame 4]
          [example_frame 1, example_frame 2])))) \<le> 2
   \<and> length (items (m_gpuFrameBuffer (movie_run example_supported [Play, Update 1, Read, Read, Update 2]
        (example_movie (Some (example_frame 0)) 1 (5 / 8) [example_frame 3, example_frame 4]
          [example_frame 1, example_frame 2])))) \<le> 2"
proof -
  let ?m = "example_movie (Some (example_frame 0)) 1 (5 / 8) [example_frame 3, example_frame 4]
        [example_frame 1, example_frame 2]"
  let ?xs = "[Play, Update 1, Read, Read, Update 2]"
  have c: "create example_supported example_container ''movie.mov'' None = Inr ?m"
    by (rule example_create)
  have "create example_supported example_container ''movie.mov'' None = Inr ?m \<longrightarrow>
        length (items (m_cpuFrameBuffer (movie_run example_supported ?xs ?m))) \<le> 2
        \<and> length (items (m_gpuFrameBuffer (movie_run example_supported ?xs ?m))) \<le> 2"
    by (rule buffers_within_capacity[where supported = example_supported
        and container = example_container and filename = "''movie.mov''" and m' = ?m and xs = ?xs,
        THEN conjunct2, THEN conjunct2])
  then show ?thesis using c by (intro conjI) simp_all
qed

section \<open>Updating a paused movie\<close>




section \<open>Pausing\<close>

text \<open>
  C7. For every movie, \<^verbatim>\<open>pause()\<close> gives the state that \<^verbatim>\<open>setPlaybackRate(0)\<close> gives, so
  every sequence of later calls and reader rounds ends in the same state after the one as
  after the other. The reader keeps running: the playing flag is unchanged, and a round
  of the reader after the pause does what it does before it.
\<close>

theorem pause_is_setPlaybackRate_zero:
  "pause m = setPlaybackRate (Finite 0) m
   \<and> movie_step supported Pause m = movie_step supported (SetPlaybackRate (Finite 0)) m
   \<and> movie_run supported xs (pause m) = movie_run supported xs (setPlaybackRate (Finite 0) m)
   \<and> isPlaying (pause m) = isPlaying m
   \<and> m_cpuFrameBuffer (pause m) = m_cpuFrameBuffer m
   \<and> m_gpuFrameBuffer (pause m) = m_gpuFrameBuffer m
   \<and> read supported (pause m) = pause (read supported m)"
proof -
  have 1: "pause m = setPlaybackRate (Finite 0) m" by (simp add: pause_def setPlaybackRate_def)
  have 7: "read supported (pause m) = pause (read supported m)"
    unfolding pause_def by (rule read_rate_independent)
  show ?thesis using 1 7 by (simp add: isPlaying_def) (simp add: setPlaybackRate_def)
qed

section \<open>An unsupported codec\<close>

text \<open>
  C8. For a file whose video track has a codec without a decoder, the constructor fails
  with \<^verbatim>\<open>UnsupportedCodecError\<close> and there is no movie. A movie that the constructor has
  returned has a codec with a decoder; in no state that it reaches by calls on it and
  rounds of its reader is an unsupported-codec error recorded, nor does decoding a sample
  fail with one.
\<close>

theorem unsupported_codec_fails_construction:
  "(container filename = Some track \<and> \<not> supported (t_codec track) \<longrightarrow>
      Movie_ctor supported container filename options = Inl (UnsupportedCodecError (t_codec track)))
   \<and> (Movie_ctor supported container filename options = Inr m \<longrightarrow>
        supported (getCodec m)
        \<and> \<not> is_unsupported (lastError (movie_run supported xs m))
        \<and> getFrame supported (movie_run supported xs m) i \<noteq> Inl (UnsupportedCodecError codec))"
proof (intro conjI impI)
  assume "container filename = Some track \<and> \<not> supported (t_codec track)"
  then show "Movie_ctor supported container filename options = Inl (UnsupportedCodecError (t_codec track))"
    using Movie_ctor_unsupported by blast
next
  assume c: "Movie_ctor supported container filename options = Inr m"
  note k = Movie_ctor_codec_checked[OF c]
  note r = codec_checked_run[OF k, of xs]
  show "supported (getCodec m)" using k by (simp add: codec_checked_def getCodec_def)
  show "\<not> is_unsupported (lastError (movie_run supported xs m))"
    using r by (simp add: codec_checked_def)
  show "getFrame supported (movie_run supported xs m) i \<noteq> Inl (UnsupportedCodecError codec)"
    using r by (intro getFrame_never_unsupported) (simp add: codec_checked_def)
qed

text \<open>
  The example container: the file with the unknown codec gives no movie, and the movie of
  the other file decodes its samples.
\<close>

theorem unsupported_codec_fails_construction_witness:
  "example_container ''other.mov'' = Some (example_track\<lparr> t_codec := ''mp4v'' \<rparr>)
   \<and> \<not> example_supported (t_codec (example_track\<lparr> t_codec := ''mp4v'' \<rparr>))
   \<and> Movie_ctor example_supported example_container ''other.mov'' Options_default
      = Inl (UnsupportedCodecError ''mp4v'')
   \<and> Movie_ctor example_supported example_container ''movie.mov'' Options_no_prebuffer
      = Inr (members ''movie.mov'' Options_no_prebuffer example_track)
   \<and> example_supported (getCodec (members ''movie.mov'' Options_no_prebuffer example_track))
   \<and> \<not> is_unsupported (lastError (movie_run example_supported [Play, Read, Update 1]
        (members ''movie.mov'' Options_no_prebuffer example_track)))"
proof -
  let ?t = "example_track\<lparr> t_codec := ''mp4v'' \<rparr>"
  let ?m = "members ''movie.mov'' Options_no_prebuffer example_track"
  have h1: "example_container ''other.mov'' = Some ?t" by (simp add: example_container_def)
  have h2: "\<not> example_supported (t_codec ?t)" by (simp add: example_supported_def)
  have h3: "Movie_ctor example_supported example_container ''movie.mov'' Options_no_prebuffer = Inr ?m"
    by (rule example_ctor_no_prebuffer)
  have a: "Movie_ctor example_supported example_container ''other.mov'' Options_default
      = Inl (UnsupportedCodecError ''mp4v'')"
    using unsupported_codec_fails_construction[of example_container "''other.mov''" ?t
        example_supported Options_default] h1 h2
    by simp
  have b: "example_supported (getCodec ?m)
      \<and> \<not> is_unsupported (lastError (movie_run example_supported [Play, Read, Update 1] ?m))"
    using unsupported_codec_fails_construction[of example_container "''movie.mov''" _
        example_supported Options_no_prebuffer ?m "[Play, Read, Update 1]"] h3
    by blast
  show ?thesis using h1 h2 h3 a b by blast
qed

section \<open>A new movie\<close>

text \<open>
  C10, as the code and the specification have it. The default member initialisers of the
  header leave any movie object not playing, at rate 1, not looping and with a read
  fraction of 0, for which \<^verbatim>\<open>getReadSample\<close> is sample 0 whatever the number of samples:
  the first sample decoded is sample 0. A constructed movie, before any call on it, is
  still not playing, at rate 1 and not looping; its read fraction is still 0 when the
  options disable prebuffering.
\<close>

theorem new_movie_state:
  "\<not> isPlaying (member_initialisers m0)
   \<and> getPlaybackRate (member_initialisers m0) = Finite 1
   \<and> \<not> m_loop (member_initialisers m0)
   \<and> m_readFraction (member_initialisers m0) = Finite 0
   \<and> getReadSample (m_readFraction (member_initialisers m0)) n = Some 0
   \<and> (Movie_ctor supported container filename options = Inr m \<longrightarrow>
        \<not> isPlaying m \<and> getPlaybackRate m = Finite 1 \<and> \<not> m_loop m
        \<and> (\<not> prebuffer_opt options \<longrightarrow> m_readFraction m = Finite 0))"
proof -
  have i: "\<not> isPlaying (member_initialisers m0)"
    "getPlaybackRate (member_initialisers m0) = Finite 1"
    "\<not> m_loop (member_initialisers m0)"
    "m_readFraction (member_initialisers m0) = Finite 0"
    by (simp_all add: member_initialisers_def isPlaying_def getPlaybackRate_def)
  have c: "\<not> isPlaying m \<and> getPlaybackRate m = Finite 1 \<and> \<not> m_loop m
        \<and> (\<not> prebuffer_opt options \<longrightarrow> m_readFraction m = Finite 0)"
    if "Movie_ctor supported container filename options = Inr m"
  proof -
    from that obtain t where
      m: "m = (if prebuffer_opt options then prebuffer supported (members filename options t)
            else members filename options t)"
      by (rule Movie_ctor_Inr)
    have "initial_controls m"
      unfolding m by (simp add: initial_controls_prebuffer initial_controls_members)
    moreover have "\<not> prebuffer_opt options \<longrightarrow> m_readFraction m = Finite 0"
      unfolding m by (simp add: members_def)
    ultimately show ?thesis by (simp add: initial_controls_def)
  qed
  show ?thesis
    using i c by (simp add: getReadSample_zero)
qed

text \<open>The example file, constructed without prebuffering.\<close>

theorem new_movie_state_witness:
  "Movie_ctor example_supported example_container ''movie.mov'' Options_no_prebuffer
   = Inr (members ''movie.mov'' Options_no_prebuffer example_track)
   \<and> \<not> prebuffer_opt Options_no_prebuffer
   \<and> \<not> isPlaying (members ''movie.mov'' Options_no_prebuffer example_track)
   \<and> getPlaybackRate (members ''movie.mov'' Options_no_prebuffer example_track) = Finite 1
   \<and> \<not> m_loop (members ''movie.mov'' Options_no_prebuffer example_track)
   \<and> m_readFraction (members ''movie.mov'' Options_no_prebuffer example_track) = Finite 0"
proof -
  let ?m = "members ''movie.mov'' Options_no_prebuffer example_track"
  have h1: "Movie_ctor example_supported example_container ''movie.mov'' Options_no_prebuffer = Inr ?m"
    by (rule example_ctor_no_prebuffer)
  have h2: "\<not> prebuffer_opt Options_no_prebuffer"
    by (simp add: Options_no_prebuffer_def set_prebuffer_def prebuffer_opt_def)
  show ?thesis
    using h1 h2 new_movie_state[of ?m 8 example_supported example_container
        "''movie.mov''" Options_no_prebuffer ?m]
    by blast
qed

text \<open>
  The claim as stated, for every newly constructed movie, fails for the read fraction when
  the constructor prebuffers, which the default options ask for: the example file created
  without options has decoded five samples when the constructor returns, and its read
  fraction is \<open>5/8\<close>.
\<close>

theorem new_movie_state_counterexample:
  "create example_supported example_container ''movie.mov'' None
   = Inr (example_movie (Some (example_frame 0)) 1 (5 / 8) [example_frame 3, example_frame 4]
       [example_frame 1, example_frame 2])
   \<and> m_readFraction (example_movie (Some (example_frame 0)) 1 (5 / 8)
        [example_frame 3, example_frame 4] [example_frame 1, example_frame 2]) = Finite (5 / 8)
   \<and> Finite (5 / 8) \<noteq> Finite 0"
  by (simp add: example_create)

section \<open>The default options\<close>

text \<open>
  C9. A default-constructed \<^verbatim>\<open>Options\<close> has \<^verbatim>\<open>cpuBufferSize() == 2\<close> and
  \<^verbatim>\<open>gpuBufferSize() == 2\<close>, and these are the options that \<^verbatim>\<open>create\<close> passes to the
  constructor of a movie when it is called without options. So a movie constructed
  without options has a CPU buffer and a GPU buffer of capacity 2 each, and the capacities
  are fixed: they are 2 in every state that the movie reaches by calls on it and rounds of
  its reader.
\<close>

theorem Options_default_buffer_sizes:
  "cpuBufferSize Options_default = 2 \<and> gpuBufferSize Options_default = 2
   \<and> create supported container filename None
       = Movie_ctor supported container filename Options_default
   \<and> (create supported container filename None = Inr m \<longrightarrow>
        capacity (m_cpuFrameBuffer m) = 2 \<and> capacity (m_gpuFrameBuffer m) = 2
        \<and> capacity (m_cpuFrameBuffer (movie_run supported xs m)) = 2
        \<and> capacity (m_gpuFrameBuffer (movie_run supported xs m)) = 2)"
proof -
  have d: "cpuBufferSize Options_default = 2" "gpuBufferSize Options_default = 2"
    by (simp_all add: cpuBufferSize_def gpuBufferSize_def Options_default_def)
  have c: "create supported container filename None
       = Movie_ctor supported container filename Options_default"
    by (simp add: create_def)
  have k: "capacity (m_cpuFrameBuffer m) = 2 \<and> capacity (m_gpuFrameBuffer m) = 2
        \<and> capacity (m_cpuFrameBuffer (movie_run supported xs m)) = 2
        \<and> capacity (m_gpuFrameBuffer (movie_run supported xs m)) = 2"
    if "create supported container filename None = Inr m"
  proof -
    from that have "Movie_ctor supported container filename Options_default = Inr m"
      by (simp only: c)
    note b = Movie_ctor_bounded[OF this]
    have "capacity (m_cpuFrameBuffer m) = 2" "capacity (m_gpuFrameBuffer m) = 2"
      using b by (simp_all add: bounded_def d)
    moreover have "capacity (m_cpuFrameBuffer (movie_run supported xs m)) = 2"
      "capacity (m_gpuFrameBuffer (movie_run supported xs m)) = 2"
      using movie_run_capacity[OF b(1), of supported xs] by (simp_all add: b(2) d)
    ultimately show ?thesis by simp
  qed
  show ?thesis using d c k by blast
qed

text \<open>
  The example file, created without options: both buffers have capacity 2, also after a
  session with a seek, which clears them.
\<close>

theorem Options_default_buffer_sizes_witness:
  "create example_supported example_container ''movie.mov'' None
   = Inr (example_movie (Some (example_frame 0)) 1 (5 / 8) [example_frame 3, example_frame 4]
       [example_frame 1, example_frame 2])
   \<and> capacity (m_cpuFrameBuffer (example_movie (Some (example_frame 0)) 1 (5 / 8)
        [example_frame 3, example_frame 4] [example_frame 1, example_frame 2])) = 2
   \<and> capacity (m_gpuFrameBuffer (example_movie (Some (example_frame 0)) 1 (5 / 8)
        [example_frame 3, example_frame 4] [example_frame 1, example_frame 2])) = 2
   \<and> capacity (m_cpuFrameBuffer (movie_run example_supported [Play, Read, Update 1, SeekToSample 4]
        (example_movie (Some (example_frame 0)) 1 (5 / 8)
          [example_frame 3, example_frame 4] [example_frame 1, example_frame 2]))) = 2
   \<and> capacity (m_gpuFrameBuffer (movie_run example_supported [Play, Read, Update 1, SeekToSample 4]
        (example_movie (Some (example_frame 0)) 1 (5 / 8)
          [example_frame 3, example_frame 4] [example_frame 1, example_frame 2]))) = 2"
proof -
  let ?m = "example_movie (Some (example_frame 0)) 1 (5 / 8) [example_frame 3, example_frame 4]
        [example_frame 1, example_frame 2]"
  have c: "create example_supported example_container ''movie.mov'' None = Inr ?m"
    by (rule example_create)
  show ?thesis
    using c Options_default_buffer_sizes[where supported = example_supported
        and container = example_container and filename = "''movie.mov''" and m = ?m
        and xs = "[Play, Read, Update 1, SeekToSample 4]"]
    by blast
qed
end
